theory Spec2Isabelle
  imports Complex_Main "HOL-Library.Word" "HOL-Library.Sublist"
begin

section \<open>Strings of UTF-16 code units\<close>

text \<open>
  A JavaScript string is a sequence of 16-bit code units; \<open>length\<close>, \<open>slice\<close>, \<open>trim\<close> and
  regular expressions without the \<open>u\<close> flag all work on code units. Literals of the source
  are written \<open>js ''...''\<close>.
\<close>

type_synonym code_unit = "16 word"
type_synonym jstring = "code_unit list"

definition cu :: "char \<Rightarrow> code_unit" where
  "cu c = of_nat (of_char c)"

definition js :: "string \<Rightarrow> jstring" where
  "js s = map cu s"

abbreviation SP :: code_unit where "SP \<equiv> 0x20"
abbreviation LF :: code_unit where "LF \<equiv> 0x0A"
abbreviation CR :: code_unit where "CR \<equiv> 0x0D"

text \<open>
  The code units matched by \<open>\s\<close> and removed by \<open>trim\<close>, \<open>trimStart\<close> and \<open>trimEnd\<close>
  (ECMAScript WhiteSpace and LineTerminator): TAB, LF, VT, FF, CR, SPACE, NBSP, U+1680,
  U+2000..U+200A, U+2028, U+2029, U+202F, U+205F, U+3000 and U+FEFF.
\<close>

definition isWhiteSpace :: "code_unit \<Rightarrow> bool" where
  "isWhiteSpace c \<longleftrightarrow>
     c = 0x09 \<or> c = 0x0A \<or> c = 0x0B \<or> c = 0x0C \<or> c = 0x0D \<or> c = 0x20 \<or> c = 0xA0 \<or>
     c = 0x1680 \<or> (0x2000 \<le> c \<and> c \<le> 0x200A) \<or> c = 0x2028 \<or> c = 0x2029 \<or>
     c = 0x202F \<or> c = 0x205F \<or> c = 0x3000 \<or> c = 0xFEFF"

definition trimStart :: "jstring \<Rightarrow> jstring" where
  "trimStart s = dropWhile isWhiteSpace s"

definition trimEnd :: "jstring \<Rightarrow> jstring" where
  "trimEnd s = rev (dropWhile isWhiteSpace (rev s))"

definition trim :: "jstring \<Rightarrow> jstring" where
  "trim s = trimEnd (trimStart s)"

text \<open>\<open>Array.prototype.join\<close> on an array of strings.\<close>

fun join :: "jstring \<Rightarrow> jstring list \<Rightarrow> jstring" where
  "join sep [] = []"
| "join sep [x] = x"
| "join sep (x # y # ys) = x @ sep @ join sep (y # ys)"


section \<open>tokenizer.ts\<close>

text \<open>
  \<open>text.replace(/\s+/g, ' ')\<close>: scanning from the left, every maximal run of white space
  becomes one SPACE, every other code unit is copied.
\<close>

function replaceWhitespaceRuns :: "jstring \<Rightarrow> jstring" where
  "replaceWhitespaceRuns [] = []"
| "replaceWhitespaceRuns (c # cs) =
     (if isWhiteSpace c then SP # replaceWhitespaceRuns (dropWhile isWhiteSpace cs)
      else c # replaceWhitespaceRuns cs)"
  by pat_completeness auto
termination
  by (relation "measure length") (auto simp: less_Suc_eq_le length_dropWhile_le)

text \<open>The character class \<open>[.,;:!?()[\]{}"']\<close> of \<open>approximateTokenCount\<close>.\<close>

definition punctuationClass :: "code_unit list" where
  "punctuationClass = js ''.,;:!?()[]{}'' @ [0x22, 0x27]"

definition isPunctuation :: "code_unit \<Rightarrow> bool" where
  "isPunctuation c \<longleftrightarrow> c \<in> set punctuationClass"

text \<open>
  \<open>Math.ceil(a / b)\<close> for a count \<open>a\<close> and a positive integer constant \<open>b\<close>. String lengths
  are far below \<open>2^53\<close>, where the quotient of the two doubles rounds to the same side of
  every integer as the exact quotient, so the result is the exact ceiling.
\<close>

definition mathCeilDiv :: "nat \<Rightarrow> nat \<Rightarrow> nat" where
  "mathCeilDiv a b = (a + b - 1) div b"

definition approximateTokenCount :: "jstring \<Rightarrow> nat" where
  "approximateTokenCount text =
     (let normalized = trim (replaceWhitespaceRuns text) in
      if normalized = [] then 0
      else
        let punct = length (filter isPunctuation normalized);
            chars = length normalized;
            base = mathCeilDiv chars 4;
            bump = mathCeilDiv punct 6
        in max 1 (base + bump))"


subsection \<open>Errors\<close>

text \<open>
  The source throws \<open>Error\<close> objects told apart by their message:
  \<open>ConfigurationError\<close> is "maxTokens must be > 0", \<open>InputNotFound\<close> is "Input not found: ...",
  \<open>UnsupportedModeError\<close> is "assumeNoMultilineFields=false is not supported ...",
  \<open>MissingHeader\<close> is "Missing header". \<open>TokenizationFailure\<close> stands for an exception thrown
  by the external encoder's \<open>encode\<close>, which \<open>countTokens\<close> does not catch.
\<close>

datatype error =
    ConfigurationError
  | InputNotFound
  | UnsupportedModeError
  | MissingHeader
  | TokenizationFailure

subsection \<open>The encoder cache and \<open>countTokens\<close>\<close>

text \<open>
  The \<open>tiktoken\<close> package is external. An encoder maps a text to its token ids or throws.
  Of the imported module only the two entry points are used; each may be absent (not a
  function), and a call that throws or returns nothing is \<open>None\<close>.
\<close>

type_synonym encoder = "jstring \<Rightarrow> error + nat list"

record tiktoken =
  encoding_for_model :: "(jstring \<Rightarrow> encoder option) option"
  get_encoding :: "(jstring \<Rightarrow> encoder option) option"

text \<open>
  \<open>imported\<close> is what \<open>await import('tiktoken')\<close> yields (\<open>None\<close> when the import fails),
  \<open>cachedEncode\<close> is the module variable of that name.
\<close>

record tokenizer =
  imported :: "tiktoken option"
  cachedEncode :: "encoder option"

record TokenizerOptions =
  model :: "jstring option"
  approximate :: "bool option"

definition initTiktoken :: "tokenizer \<Rightarrow> jstring option \<Rightarrow> tokenizer" where
  "initTiktoken tk modelHint =
     (case cachedEncode tk of
        Some _ \<Rightarrow> tk
      | None \<Rightarrow>
          (case imported tk of
             None \<Rightarrow> tk\<lparr>cachedEncode := None\<rparr>
           | Some lib \<Rightarrow>
               let enc = (case modelHint of
                            None \<Rightarrow> None
                          | Some m \<Rightarrow>
                              (case encoding_for_model lib of
                                 None \<Rightarrow> None
                               | Some f \<Rightarrow> if m \<noteq> [] then f m else None));
                   enc = (case enc of
                            Some e \<Rightarrow> Some e
                          | None \<Rightarrow>
                              (case get_encoding lib of
                                 None \<Rightarrow> None
                               | Some g \<Rightarrow> g (js ''cl100k_base'')))
               in tk\<lparr>cachedEncode := enc\<rparr>))"

definition countTokens ::
  "tokenizer \<Rightarrow> jstring \<Rightarrow> TokenizerOptions \<Rightarrow> (error + nat) \<times> tokenizer" where
  "countTokens tk text opts =
     (if approximate opts = Some True then (Inr (approximateTokenCount text), tk)
      else
        let tk = initTiktoken tk (model opts) in
        case cachedEncode tk of
          Some encode \<Rightarrow>
            (case encode text of
               Inl e \<Rightarrow> (Inl e, tk)
             | Inr ids \<Rightarrow> (Inr (length ids), tk))
        | None \<Rightarrow> (Inr (approximateTokenCount text), tk))"

text \<open>
  Both packers count every text with the same \<open>{model, approximate}\<close>. The cache only ever
  changes from empty to the encoder that the next call would resolve again, so the counts of
  one operation are those of the function \<open>counter tk opts\<close>.
\<close>

type_synonym counter = "jstring \<Rightarrow> error + nat"

definition counter :: "tokenizer \<Rightarrow> TokenizerOptions \<Rightarrow> counter" where
  "counter tk opts = (\<lambda>text. fst (countTokens tk text opts))"


section \<open>splitText.ts\<close>

text \<open>
  The options. An optional field is an \<open>option\<close>, its default applied where the source
  destructures. \<open>maxTokens\<close> is an integer: the command line reads it with \<open>parseInt\<close>.
  The fields that both option types share are declared once.
\<close>

datatype mode = Paragraph | Sentence | Line

record BudgetOptions = TokenizerOptions +
  maxTokens :: int

record SplitTextOptions = BudgetOptions +
  mode :: "mode option"

text \<open>\<open>text.replace(/\r\n/g, "\n")\<close>\<close>

fun replaceCRLF :: "jstring \<Rightarrow> jstring" where
  "replaceCRLF (c # d # cs) =
     (if c = CR \<and> d = LF then LF # replaceCRLF cs else c # replaceCRLF (d # cs))"
| "replaceCRLF cs = cs"

text \<open>
  \<open>String.prototype.split\<close> with a regular expression that has no capture group. A matcher
  gives, for the code unit before a position (for a lookbehind) and the text from that
  position on, the length of the match starting there. The loop is the one of
  \<open>RegExp.prototype[Symbol.split]\<close>: \<open>piece\<close> is the text between the end \<open>p\<close> of the last
  separator and the position \<open>q\<close> tried next; a match that ends at \<open>p\<close> is skipped.
\<close>

type_synonym matcher = "code_unit option \<Rightarrow> jstring \<Rightarrow> nat option"

function regexSplitLoop ::
  "matcher \<Rightarrow> code_unit option \<Rightarrow> jstring \<Rightarrow> jstring \<Rightarrow> jstring list" where
  "regexSplitLoop m prev piece [] = [piece]"
| "regexSplitLoop m prev piece (c # cs) =
     (case m prev (c # cs) of
        None \<Rightarrow> regexSplitLoop m (Some c) (piece @ [c]) cs
      | Some n \<Rightarrow>
          if n = 0 \<and> piece = [] then regexSplitLoop m (Some c) (piece @ [c]) cs
          else
            let consumed = take n (c # cs) in
            piece # regexSplitLoop m (if consumed = [] then prev else Some (last consumed)) []
                      (drop n (c # cs)))"
  by pat_completeness auto
termination
  by (relation "measure (\<lambda>(m, prev, piece, rest). 2 * length rest + (if piece = [] then 0 else 1))")
     auto

definition regexSplit :: "matcher \<Rightarrow> jstring \<Rightarrow> jstring list" where
  "regexSplit m s =
     (if s = [] then (case m None [] of None \<Rightarrow> [[]] | Some _ \<Rightarrow> [])
      else regexSplitLoop m None [] s)"

text \<open>\<open>/\n{2,}/\<close>: two or more line feeds, as many as there are.\<close>

definition matchBlankLines :: matcher where
  "matchBlankLines prev s =
     (let n = length (takeWhile (\<lambda>c. c = LF) s) in if 2 \<le> n then Some n else None)"

text \<open>
  \<open>/(?<=[.!?])\s+(?=[A-Z0-9"\<dots>(\[])/\<close>, the class of the lookahead holding the letters
  \<open>A\<close> to \<open>Z\<close>, the digits, the double quote, U+201C, U+2018, \<open>(\<close> and \<open>[\<close>. The greedy \<open>\s+\<close>
  takes the whole run of white space; a shorter run is followed by white space, which is
  not in the class, so backtracking never finds another match.
\<close>

definition isSentenceEnd :: "code_unit \<Rightarrow> bool" where
  "isSentenceEnd c \<longleftrightarrow> c = cu CHR ''.'' \<or> c = cu CHR ''!'' \<or> c = cu CHR ''?''"

definition isSentenceStart :: "code_unit \<Rightarrow> bool" where
  "isSentenceStart c \<longleftrightarrow>
     (0x41 \<le> c \<and> c \<le> 0x5A) \<or> (0x30 \<le> c \<and> c \<le> 0x39) \<or> c = 0x22 \<or> c = 0x201C \<or>
     c = 0x2018 \<or> c = cu CHR ''('' \<or> c = cu CHR ''[''"

definition matchSentenceBoundary :: matcher where
  "matchSentenceBoundary prev s =
     (case prev of
        None \<Rightarrow> None
      | Some b \<Rightarrow>
          if isSentenceEnd b then
            let n = length (takeWhile isWhiteSpace s) in
            (case drop n s of
               [] \<Rightarrow> None
             | d # _ \<Rightarrow> if 1 \<le> n \<and> isSentenceStart d then Some n else None)
          else None)"

text \<open>\<open>cleaned.split("\n")\<close>\<close>

fun splitNewlineLoop :: "jstring \<Rightarrow> jstring \<Rightarrow> jstring list" where
  "splitNewlineLoop piece [] = [piece]"
| "splitNewlineLoop piece (c # cs) =
     (if c = LF then piece # splitNewlineLoop [] cs else splitNewlineLoop (piece @ [c]) cs)"

definition splitNewline :: "jstring \<Rightarrow> jstring list" where
  "splitNewline s = splitNewlineLoop [] s"

text \<open>
  The three segmenters. The local constant \<open>parts\<close> of each is a function of the text
  here.
\<close>

definition sentenceParts :: "jstring \<Rightarrow> jstring list" where
  "sentenceParts text =
     (let cleaned = replaceCRLF text
      in filter (\<lambda>s. s \<noteq> []) (map trim (regexSplit matchSentenceBoundary cleaned)))"

definition splitIntoSentences :: "jstring \<Rightarrow> jstring list" where
  "splitIntoSentences text =
     (let parts = sentenceParts text in if length parts \<noteq> 0 then parts else [trim text])"

definition paragraphParts :: "jstring \<Rightarrow> jstring list" where
  "paragraphParts text =
     (let cleaned = replaceCRLF text
      in filter (\<lambda>p. p \<noteq> []) (map trim (regexSplit matchBlankLines cleaned)))"

definition splitIntoParagraphs :: "jstring \<Rightarrow> jstring list" where
  "splitIntoParagraphs text =
     (let parts = paragraphParts text in if length parts \<noteq> 0 then parts else [trim text])"

definition lineParts :: "jstring \<Rightarrow> jstring list" where
  "lineParts text =
     (let cleaned = replaceCRLF text
      in filter (\<lambda>l. length l > 0) (map trimEnd (splitNewline cleaned)))"

definition splitIntoLines :: "jstring \<Rightarrow> jstring list" where
  "splitIntoLines text =
     (let parts = lineParts text in if length parts \<noteq> 0 then parts else [trim text])"

subsection \<open>The chunk packer\<close>

text \<open>
  An entry of the two parallel result arrays \<open>chunks\<close> and \<open>tokenCounts\<close>, which are always
  pushed together: \<open>body\<close> is the string pushed to \<open>chunks\<close>, \<open>tokens\<close> the number pushed to
  \<open>tokenCounts\<close>. \<open>constituents\<close> keeps the array the body was joined from (\<open>current\<close> at a
  flush, the slice alone for a hard-split fragment).
\<close>

record Chunk =
  constituents :: "jstring list"
  body :: jstring
  tokens :: nat

definition joinedChunk :: "jstring \<Rightarrow> jstring list \<Rightarrow> nat \<Rightarrow> Chunk" where
  "joinedChunk sep current currentTokens =
     \<lparr>constituents = current, body = join sep current, tokens = currentTokens\<rparr>"

definition fragmentChunk :: "jstring \<times> nat \<Rightarrow> Chunk" where
  "fragmentChunk f = \<lparr>constituents = [fst f], body = fst f, tokens = snd f\<rparr>"

text \<open>
  The inner loop of the hard split: while the slice counts above the budget and is longer
  than 50 code units, keep its first \<open>Math.floor(slice.length * 0.85)\<close> code units. The
  double nearest to 0.85 lies below 0.85 by less than \<open>3 * 10^-17\<close>, so for every length a
  string can have the rounded product has the floor of the exact \<open>85 * length / 100\<close>.
\<close>

function shrinkSlice :: "counter \<Rightarrow> int \<Rightarrow> jstring \<Rightarrow> error + jstring" where
  "shrinkSlice cnt maxT sliceStr =
     (case cnt sliceStr of
        Inl e \<Rightarrow> Inl e
      | Inr n \<Rightarrow>
          if int n > maxT \<and> length sliceStr > 50
          then shrinkSlice cnt maxT (take (length sliceStr * 85 div 100) sliceStr)
          else Inr sliceStr)"
  by pat_completeness auto
termination
  by (relation "measure (\<lambda>(cnt, maxT, sliceStr). length sliceStr)") auto

text \<open>
  The outer loop of the hard split, returning the fragments with their counts in the order
  in which the source pushes them.
\<close>

function hardSplit :: "counter \<Rightarrow> int \<Rightarrow> jstring \<Rightarrow> error + (jstring \<times> nat) list" where
  "hardSplit cnt maxT remaining =
     (if length remaining > 0 then
        let guessChars = max 50 (maxT * 4) in
        case shrinkSlice cnt maxT (take (nat guessChars) remaining) of
          Inl e \<Rightarrow> Inl e
        | Inr sliceStr \<Rightarrow>
            (case cnt sliceStr of
               Inl e \<Rightarrow> Inl e
             | Inr sliceTokens \<Rightarrow>
                 (case hardSplit cnt maxT (trimStart (drop (length sliceStr) remaining)) of
                    Inl e \<Rightarrow> Inl e
                  | Inr rest \<Rightarrow> Inr ((sliceStr, sliceTokens) # rest)))
      else Inr [])"
  by pat_completeness auto
termination
proof (relation "measure (\<lambda>(cnt, maxT, remaining). length remaining)")
  show "wf (measure (\<lambda>(cnt :: counter, maxT :: int, remaining :: jstring). length remaining))"
    by simp
next
  fix cnt :: counter and maxT :: int and remaining :: jstring
    and guessChars :: int and sliceStr :: jstring and sliceTokens :: nat
  assume pos: "0 < length remaining"
    and guess: "guessChars = max 50 (maxT * 4)"
    and shrunk: "shrinkSlice cnt maxT (take (nat guessChars) remaining) = Inr sliceStr"
  have keeps: "shrinkSlice cnt maxT s = Inr r \<Longrightarrow> s \<noteq> [] \<Longrightarrow> r \<noteq> []" for s r
  proof (induction cnt maxT s rule: shrinkSlice.induct)
    case (1 cnt maxT sliceStr)
    show ?case
    proof (cases "cnt sliceStr")
      case (Inl e)
      with "1.prems" show ?thesis by (simp add: shrinkSlice.simps [of cnt maxT sliceStr])
    next
      case (Inr n)
      show ?thesis
      proof (cases "int n > maxT \<and> length sliceStr > 50")
        case True
        then have "take (length sliceStr * 85 div 100) sliceStr \<noteq> []" by auto
        with "1.IH" [OF Inr True] "1.prems" Inr True show ?thesis
          by (simp add: shrinkSlice.simps [of cnt maxT sliceStr])
      next
        case False
        with "1.prems" Inr show ?thesis
          by (auto simp: shrinkSlice.simps [of cnt maxT sliceStr])
      qed
    qed
  qed
  from pos guess have "take (nat guessChars) remaining \<noteq> []" by auto
  with keeps [OF shrunk] have "sliceStr \<noteq> []" .
  with pos have "length (drop (length sliceStr) remaining) < length remaining"
    by (cases sliceStr) auto
  moreover have "length (trimStart (drop (length sliceStr) remaining))
                   \<le> length (drop (length sliceStr) remaining)"
    unfolding trimStart_def by (rule length_dropWhile_le)
  ultimately show "((cnt, maxT, trimStart (drop (length sliceStr) remaining)),
                    (cnt, maxT, remaining))
                   \<in> measure (\<lambda>(cnt, maxT, remaining). length remaining)"
    by simp
qed

text \<open>
  The \<open>for\<close> loop over the units, with the loop variables \<open>current\<close> and \<open>currentTokens\<close> and
  the entries pushed so far. \<open>sep\<close> is the separator of the mode. For an oversize unit the
  open chunk is pushed before the fragments; an exception of the counter discards all of
  them, so the result of the hard split is taken first.
\<close>

fun packUnits ::
  "counter \<Rightarrow> int \<Rightarrow> jstring \<Rightarrow> jstring list \<Rightarrow> Chunk list \<Rightarrow> jstring list \<Rightarrow> nat
     \<Rightarrow> error + (Chunk list \<times> jstring list \<times> nat)" where
  "packUnits cnt maxT sep [] emitted current currentTokens =
     Inr (emitted, current, currentTokens)"
| "packUnits cnt maxT sep (unit # units) emitted current currentTokens =
     (case cnt unit of
        Inl e \<Rightarrow> Inl e
      | Inr unitTokens \<Rightarrow>
          if int unitTokens > maxT then
            (case hardSplit cnt maxT unit of
               Inl e \<Rightarrow> Inl e
             | Inr fragments \<Rightarrow>
                 if current \<noteq> [] then
                   packUnits cnt maxT sep units
                     (emitted @ [joinedChunk sep current currentTokens] @ map fragmentChunk fragments)
                     [] 0
                 else
                   packUnits cnt maxT sep units
                     (emitted @ map fragmentChunk fragments) current currentTokens)
          else if int (currentTokens + unitTokens) > maxT then
            packUnits cnt maxT sep units
              (if current \<noteq> [] then emitted @ [joinedChunk sep current currentTokens] else emitted)
              [unit] unitTokens
          else
            packUnits cnt maxT sep units emitted (current @ [unit])
              (currentTokens + unitTokens))"

text \<open>
  \<open>mode === "line" ? "\n" : "\n\n"\<close>, and the choice of the segmenter by the mode.
\<close>

definition separator :: "mode \<Rightarrow> jstring" where
  "separator m = (if m = Line then [LF] else [LF, LF])"

definition segment :: "mode \<Rightarrow> jstring \<Rightarrow> jstring list" where
  "segment m text =
     (if m = Sentence then splitIntoSentences text
      else if m = Line then splitIntoLines text
      else splitIntoParagraphs text)"

text \<open>
  The body of \<open>splitTextIntoTokenChunks\<close> up to its \<open>return\<close>: the entries pushed, in order.
\<close>

definition packText :: "tokenizer \<Rightarrow> jstring \<Rightarrow> SplitTextOptions \<Rightarrow> error + Chunk list" where
  "packText tk text opts =
     (let m = (case mode opts of None \<Rightarrow> Paragraph | Some m \<Rightarrow> m) in
      if maxTokens opts \<le> 0 then Inl ConfigurationError
      else
        let units = segment m text;
            cnt = counter tk \<lparr>model = model opts, approximate = approximate opts\<rparr>
        in case packUnits cnt (maxTokens opts) (separator m) units [] [] 0 of
             Inl e \<Rightarrow> Inl e
           | Inr (emitted, current, currentTokens) \<Rightarrow>
               Inr (if current \<noteq> [] then emitted @ [joinedChunk (separator m) current currentTokens]
                    else emitted))"

record SplitTextResult =
  chunks :: "jstring list"
  tokenCounts :: "nat list"

definition splitTextIntoTokenChunks ::
  "tokenizer \<Rightarrow> jstring \<Rightarrow> SplitTextOptions \<Rightarrow> error + SplitTextResult" where
  "splitTextIntoTokenChunks tk text opts =
     (case packText tk text opts of
        Inl e \<Rightarrow> Inl e
      | Inr emitted \<Rightarrow> Inr \<lparr>chunks = map body emitted, tokenCounts = map tokens emitted\<rparr>)"


section \<open>splitCsv.ts\<close>

datatype tokenMode = LineMode | CellsMode

record SplitCsvOptions = BudgetOptions +
  inputPath :: jstring
  outDir :: jstring
  tokenMode :: "tokenMode option"
  delimiter :: "jstring option"
  quote :: "jstring option"
  assumeNoMultilineFields :: "bool option"

text \<open>
  \<open>parseCsvLine\<close>: the \<open>for\<close> loop over the indices of the line, as a recursion over the
  code units not yet read. \<open>delimiter\<close> and \<open>quote\<close> are strings, compared with the
  one-unit string \<open>line[i]\<close>; \<open>line[i + 1]\<close> past the end is \<open>undefined\<close> and equals no string.
\<close>

fun parseCsvLoop ::
  "jstring \<Rightarrow> jstring \<Rightarrow> jstring list \<Rightarrow> jstring \<Rightarrow> bool \<Rightarrow> jstring \<Rightarrow> jstring list" where
  "parseCsvLoop delim quot cells cur inQuotes [] = cells @ [cur]"
| "parseCsvLoop delim quot cells cur inQuotes [ch] =
     (if [ch] = quot then parseCsvLoop delim quot cells cur (\<not> inQuotes) []
      else if \<not> inQuotes \<and> [ch] = delim then parseCsvLoop delim quot (cells @ [cur]) [] inQuotes []
      else parseCsvLoop delim quot cells (cur @ [ch]) inQuotes [])"
| "parseCsvLoop delim quot cells cur inQuotes (ch # next # rest) =
     (if [ch] = quot then
        (if inQuotes \<and> [next] = quot then parseCsvLoop delim quot cells (cur @ quot) inQuotes rest
         else parseCsvLoop delim quot cells cur (\<not> inQuotes) (next # rest))
      else if \<not> inQuotes \<and> [ch] = delim then
        parseCsvLoop delim quot (cells @ [cur]) [] inQuotes (next # rest)
      else parseCsvLoop delim quot cells (cur @ [ch]) inQuotes (next # rest))"

definition parseCsvLine :: "jstring \<Rightarrow> jstring \<Rightarrow> jstring \<Rightarrow> jstring list" where
  "parseCsvLine line delim quot = parseCsvLoop delim quot [] [] False line"

text \<open>
  What the packer does to the world: the calls of \<open>node:fs\<close> in the order made. The
  functions of \<open>node:path\<close> are external and taken as given. A file is the sequence of
  lines that \<open>readline\<close> delivers for it.
\<close>

datatype fs_effect =
    ExistsSync jstring
  | MkdirSync jstring
  | CreateReadStream jstring
  | WriteFileSync jstring jstring

record node_env =
  files :: "jstring \<rightharpoonup> jstring list"
  basename :: "jstring \<Rightarrow> jstring \<Rightarrow> jstring"
  extname :: "jstring \<Rightarrow> jstring"
  pathJoin :: "jstring \<Rightarrow> jstring \<Rightarrow> jstring"

text \<open>\<open>String(part).padStart(3, '0')\<close>\<close>

function decimal :: "nat \<Rightarrow> jstring" where
  "decimal n = (if n < 10 then [0x30 + of_nat n] else decimal (n div 10) @ [0x30 + of_nat (n mod 10)])"
  by pat_completeness auto
termination
  by (relation "measure id") auto

definition padStart :: "nat \<Rightarrow> code_unit \<Rightarrow> jstring \<Rightarrow> jstring" where
  "padStart n c s = replicate (n - length s) c @ s"

text \<open>
  A part as it is flushed: the lines written after the header and the value of
  \<open>currentTokens\<close> at that moment (the source does not return it).
\<close>

record CsvPart =
  rows :: "jstring list"
  total :: nat

text \<open>
  The variables of \<open>splitCsvByTokens\<close> that \<open>flushPart\<close> and the loop share, the effects so
  far, and the parts flushed so far.
\<close>

record csv_state =
  header :: "jstring option"
  part :: nat
  currentTokens :: nat
  currentLines :: "jstring list"
  partPaths :: "jstring list"
  effects :: "fs_effect list"
  flushed :: "CsvPart list"

text \<open>
  An exception leaves the effects made before it. \<open>!header\<close> holds for \<open>null\<close> and for the
  empty string.
\<close>

definition flushPart ::
  "node_env \<Rightarrow> SplitCsvOptions \<Rightarrow> csv_state \<Rightarrow> (error \<times> fs_effect list) + csv_state" where
  "flushPart env opts st =
     (case header st of
        None \<Rightarrow> Inl (MissingHeader, effects st)
      | Some h \<Rightarrow>
          if h = [] then Inl (MissingHeader, effects st)
          else if length (currentLines st) = 0 then Inr st
          else
            let part' = part st + 1;
                base = basename env (inputPath opts) (extname env (inputPath opts));
                outPath = pathJoin env (outDir opts)
                            (base @ js ''_part'' @ padStart 3 (cu CHR ''0'') (decimal part') @ js ''.csv'');
                content = join [LF] (h # currentLines st) @ [LF]
            in Inr (st\<lparr>part := part',
                       effects := effects st @ [WriteFileSync outPath content],
                       partPaths := partPaths st @ [outPath],
                       flushed := flushed st @ [\<lparr>rows = currentLines st, total = currentTokens st\<rparr>],
                       currentLines := [],
                       currentTokens := 0\<rparr>))"

definition rowTextForTokens :: "SplitCsvOptions \<Rightarrow> jstring \<Rightarrow> jstring" where
  "rowTextForTokens opts line =
     (if tokenMode opts = Some CellsMode then
        join (js '' | '')
          (parseCsvLine line
             (case delimiter opts of None \<Rightarrow> js '','' | Some d \<Rightarrow> d)
             (case quote opts of None \<Rightarrow> [0x22] | Some q \<Rightarrow> q))
      else line)"

text \<open>The \<open>for await\<close> loop over the lines of the stream.\<close>

fun processLines ::
  "counter \<Rightarrow> node_env \<Rightarrow> SplitCsvOptions \<Rightarrow> jstring list \<Rightarrow> csv_state
     \<Rightarrow> (error \<times> fs_effect list) + csv_state" where
  "processLines cnt env opts [] st = Inr st"
| "processLines cnt env opts (line # lines) st =
     (if length (trim line) = 0 then processLines cnt env opts lines st
      else if (case header st of None \<Rightarrow> True | Some h \<Rightarrow> h = []) then
        processLines cnt env opts lines (st\<lparr>header := Some line\<rparr>)
      else
        (case cnt (rowTextForTokens opts line) of
           Inl e \<Rightarrow> Inl (e, effects st)
         | Inr rowTokens \<Rightarrow>
             if int rowTokens > maxTokens opts then
               (case flushPart env opts st of
                  Inl x \<Rightarrow> Inl x
                | Inr st1 \<Rightarrow>
                    (case flushPart env opts (st1\<lparr>currentLines := [line], currentTokens := rowTokens\<rparr>) of
                       Inl x \<Rightarrow> Inl x
                     | Inr st2 \<Rightarrow> processLines cnt env opts lines st2))
             else
               (case (if int (currentTokens st + rowTokens) > maxTokens opts
                      then flushPart env opts st else Inr st) of
                  Inl x \<Rightarrow> Inl x
                | Inr st1 \<Rightarrow>
                    processLines cnt env opts lines
                      (st1\<lparr>currentLines := currentLines st1 @ [line],
                           currentTokens := currentTokens st1 + rowTokens\<rparr>))))"

text \<open>
  \<open>splitCsvByTokens\<close> up to its \<open>return\<close>: the final state, or the exception with the
  effects made before it.
\<close>

definition splitCsvRun ::
  "node_env \<Rightarrow> tokenizer \<Rightarrow> SplitCsvOptions \<Rightarrow> (error \<times> fs_effect list) + csv_state" where
  "splitCsvRun env tk opts =
     (let fx1 = [ExistsSync (inputPath opts)] in
      case files env (inputPath opts) of
        None \<Rightarrow> Inl (InputNotFound, fx1)
      | Some lines \<Rightarrow>
          if maxTokens opts \<le> 0 then Inl (ConfigurationError, fx1)
          else
            let fx2 = fx1 @ [MkdirSync (outDir opts)] in
            if \<not> (case assumeNoMultilineFields opts of None \<Rightarrow> True | Some b \<Rightarrow> b)
            then Inl (UnsupportedModeError, fx2)
            else
              let fx3 = fx2 @ [CreateReadStream (inputPath opts)];
                  cnt = counter tk (\<lparr>model = model opts, approximate = approximate opts\<rparr>);
                  st0 = (\<lparr>header = None, part = 0, currentTokens = 0, currentLines = [],
                          partPaths = [], effects = fx3, flushed = []\<rparr>)
              in (case processLines cnt env opts lines st0 of
                    Inl x \<Rightarrow> Inl x
                  | Inr st \<Rightarrow> flushPart env opts st))"

record SplitCsvResult =
  parts :: nat
  partPathsOut :: "jstring list"

definition splitCsvByTokens ::
  "node_env \<Rightarrow> tokenizer \<Rightarrow> SplitCsvOptions \<Rightarrow> (error + SplitCsvResult) \<times> fs_effect list" where
  "splitCsvByTokens env tk opts =
     (case splitCsvRun env tk opts of
        Inl (e, fx) \<Rightarrow> (Inl e, fx)
      | Inr st \<Rightarrow> (Inr \<lparr>parts = part st, partPathsOut = partPaths st\<rparr>, effects st))"


section \<open>The approximate count as the specification words it\<close>

text \<open>
  The specification normalises a text by collapsing every run of white space to a single
  space and trimming: what remains are the words of the text, the maximal runs of code
  units that are not white space, with one space between neighbours.
\<close>

function whitespaceWords :: "jstring \<Rightarrow> jstring list" where
  "whitespaceWords s =
     (let r = dropWhile isWhiteSpace s in
      if r = [] then []
      else takeWhile (\<lambda>c. \<not> isWhiteSpace c) r # whitespaceWords (dropWhile (\<lambda>c. \<not> isWhiteSpace c) r))"
  by pat_completeness auto
termination
proof (relation "measure length")
  show "wf (measure (length :: jstring \<Rightarrow> nat))" by simp
next
  fix s r :: jstring
  assume r: "r = dropWhile isWhiteSpace s" and ne: "r \<noteq> []"
  from ne obtain c cs where rc: "r = c # cs" by (cases r) auto
  with r have "\<not> isWhiteSpace c" by (metis hd_dropWhile list.sel(1) ne)
  with rc have "length (dropWhile (\<lambda>c. \<not> isWhiteSpace c) r) \<le> length cs"
    by (simp add: length_dropWhile_le)
  also have "\<dots> < length r" using rc by simp
  also have "\<dots> \<le> length s" using r by (simp add: length_dropWhile_le)
  finally show "(dropWhile (\<lambda>c. \<not> isWhiteSpace c) r, s) \<in> measure length" by simp
qed

definition specNormalize :: "jstring \<Rightarrow> jstring" where
  "specNormalize text = join [SP] (whitespaceWords text)"

text \<open>The punctuation set of the specification: \<open>. , ; : ! ? ( ) [ ] { } " '\<close>.\<close>

definition specPunctuation :: "code_unit set" where
  "specPunctuation =
     cu ` {CHR ''.'', CHR '','', CHR '';'', CHR '':'', CHR ''!'', CHR ''?'', CHR ''('', CHR '')'',
           CHR ''['', CHR '']'', CHR ''{'', CHR ''}'', CHR 0x22, CHR 0x27}"

text \<open>
  If the normalised text is empty the count is 0, otherwise
  \<open>max(1, ceil(charLength / 4) + ceil(punctuationCharCount / 6))\<close>.
\<close>

definition specApproximateCount :: "jstring \<Rightarrow> nat" where
  "specApproximateCount text =
     (let n = specNormalize text in
      if n = [] then 0
      else max 1 (nat \<lceil>real (length n) / 4\<rceil>
                  + nat \<lceil>real (length (filter (\<lambda>c. c \<in> specPunctuation) n)) / 6\<rceil>))"


section \<open>The hard split as the specification words it\<close>

text \<open>
  Step (b) of the specification: while the recount of the window exceeds the budget and
  the window is longer than 50 characters, shrink it to 85 percent of its length, rounded
  down. \<open>specShrink cnt budget w w'\<close>: the window \<open>w\<close> ends as \<open>w'\<close>.
\<close>

inductive specShrink :: "counter \<Rightarrow> int \<Rightarrow> jstring \<Rightarrow> jstring \<Rightarrow> bool" where
  accept: "cnt w = Inr n \<Longrightarrow> \<not> (int n > budget \<and> length w > 50) \<Longrightarrow> specShrink cnt budget w w"
| shrink: "cnt w = Inr n \<Longrightarrow> int n > budget \<Longrightarrow> length w > 50 \<Longrightarrow>
           specShrink cnt budget (take (nat \<lfloor>(85 / 100) * real (length w)\<rfloor>) w) w' \<Longrightarrow>
           specShrink cnt budget w w'"

text \<open>
  Steps (a) and (c): while text remains, take the first \<open>max(50, budget * 4)\<close> characters
  as the window, shrink it, emit the final window with its recount, and go on with the
  rest after the window, trimmed on the left. \<open>specHardSplit cnt budget text frags\<close>: the
  text is replaced by the fragments \<open>frags\<close>.
\<close>

inductive specHardSplit :: "counter \<Rightarrow> int \<Rightarrow> jstring \<Rightarrow> (jstring \<times> nat) list \<Rightarrow> bool" where
  finished: "specHardSplit cnt budget [] []"
| fragment: "remaining \<noteq> [] \<Longrightarrow>
             specShrink cnt budget (take (nat (max 50 (budget * 4))) remaining) w \<Longrightarrow>
             cnt w = Inr n \<Longrightarrow>
             specHardSplit cnt budget (trimStart (drop (length w) remaining)) rest \<Longrightarrow>
             specHardSplit cnt budget remaining ((w, n) # rest)"


section \<open>Notions for the properties\<close>

text \<open>The counter with which an operation counts every text, and the mode in force.\<close>

definition operationCounter :: "tokenizer \<Rightarrow> 'a BudgetOptions_scheme \<Rightarrow> counter" where
  "operationCounter tk opts = counter tk \<lparr>model = model opts, approximate = approximate opts\<rparr>"

definition effectiveMode :: "SplitTextOptions \<Rightarrow> mode" where
  "effectiveMode opts = (case mode opts of None \<Rightarrow> Paragraph | Some m \<Rightarrow> m)"



text \<open>A part that consists of exactly one row, whose own count exceeds the budget.\<close>

definition oneOversizeRow :: "counter \<Rightarrow> SplitCsvOptions \<Rightarrow> CsvPart \<Rightarrow> bool" where
  "oneOversizeRow cnt opts p \<longleftrightarrow>
     (case rows p of
        [r] \<Rightarrow> (case cnt (rowTextForTokens opts r) of
                  Inr n \<Rightarrow> total p = n \<and> int n > maxTokens opts
                | Inl _ \<Rightarrow> False)
      | _ \<Rightarrow> False)"


text \<open>The non-blank lines of a stream, and the contents written by a run.\<close>

definition nonBlankLines :: "jstring list \<Rightarrow> jstring list" where
  "nonBlankLines lines = filter (\<lambda>line. length (trim line) \<noteq> 0) lines"

fun writtenContents :: "fs_effect list \<Rightarrow> jstring list" where
  "writtenContents [] = []"
| "writtenContents (WriteFileSync path content # fx) = content # writtenContents fx"
| "writtenContents (_ # fx) = writtenContents fx"


text \<open>
  What holds between two rows of the stream once the header is captured: the header is
  fixed, the open part is within the budget, every flushed part is within the budget or one
  oversize row, and what was written is the header followed by the rows of each part.
\<close>

definition partContent :: "jstring \<Rightarrow> CsvPart \<Rightarrow> jstring" where
  "partContent h p = join [LF] (h # rows p) @ [LF]"

definition csvInvariant :: "counter \<Rightarrow> SplitCsvOptions \<Rightarrow> jstring \<Rightarrow> csv_state \<Rightarrow> bool" where
  "csvInvariant cnt opts h st \<longleftrightarrow>
     header st = Some h \<and> h \<noteq> [] \<and>
     int (currentTokens st) \<le> maxTokens opts \<and>
     (currentLines st = [] \<longrightarrow> currentTokens st = 0) \<and>
     (\<forall>p\<in>set (flushed st). int (total p) \<le> maxTokens opts \<or> oneOversizeRow cnt opts p) \<and>
     writtenContents (effects st) = map (partContent h) (flushed st)"


text \<open>The state in which the loop over the lines starts.\<close>

definition initialState :: "SplitCsvOptions \<Rightarrow> csv_state" where
  "initialState opts =
     \<lparr>header = None, part = 0, currentTokens = 0, currentLines = [], partPaths = [],
      effects = [ExistsSync (inputPath opts), MkdirSync (outDir opts),
                 CreateReadStream (inputPath opts)],
      flushed = []\<rparr>"


section \<open>Example inputs\<close>

text \<open>The counter of an operation run with \<open>approximate: true\<close> and no encoder loaded.\<close>

definition approximateCounter :: counter where
  "approximateCounter =
     counter \<lparr>imported = None, cachedEncode = None\<rparr> \<lparr>model = None, approximate = Some True\<rparr>"


text \<open>No encoder and none to import; text options with \<open>approximate: true\<close>, default mode.\<close>

definition noEncoder :: tokenizer where
  "noEncoder = \<lparr>imported = None, cachedEncode = None\<rparr>"

definition approximateText :: "int \<Rightarrow> SplitTextOptions" where
  "approximateText b = \<lparr>model = None, approximate = Some True, maxTokens = b, mode = None\<rparr>"


text \<open>
  A file system that holds at most the file \<open>in.csv\<close>, with path functions that behave like
  those of \<open>node:path\<close> on the names used here; row packer options with \<open>approximate: true\<close>
  and every optional field left out; and a stream with blank lines, a row above a budget of
  2 and three rows below it.
\<close>

definition csvEnv :: "jstring list option \<Rightarrow> node_env" where
  "csvEnv content =
     \<lparr>files = (\<lambda>p. if p = js ''in.csv'' then content else None),
      basename = (\<lambda>p ext. take (length p - length ext) p),
      extname = (\<lambda>p. drop (length p - 4) p),
      pathJoin = (\<lambda>dir name. dir @ js ''/'' @ name)\<rparr>"

definition csvOptions :: "int \<Rightarrow> SplitCsvOptions" where
  "csvOptions b =
     \<lparr>model = None, approximate = Some True, maxTokens = b, inputPath = js ''in.csv'',
      outDir = js ''out'', tokenMode = None, delimiter = None, quote = None,
      assumeNoMultilineFields = None\<rparr>"

definition exampleLines :: "jstring list" where
  "exampleLines = [js ''h'', [], js ''x'', js '' '', js ''y'', js ''zzzzzzzzz'', js ''w'']"


text \<open>
  Two paragraphs that count 13 tokens approximately: 51 letters \<open>a\<close>, and 50 letters \<open>a\<close>, a
  space and a letter \<open>b\<close>.
\<close>

definition letterA :: code_unit where "letterA = cu CHR ''a''"
definition letterB :: code_unit where "letterB = cu CHR ''b''"




text \<open>The state in which the row packer ends on the example stream with a budget of 2.\<close>

definition exampleFinal :: csv_state where
  "exampleFinal =
     \<lparr>header = Some (js ''h''), part = 3, currentTokens = 0, currentLines = [],
      partPaths = [js ''out/in_part001.csv'', js ''out/in_part002.csv'', js ''out/in_part003.csv''],
      effects =
        [ExistsSync (js ''in.csv''), MkdirSync (js ''out''), CreateReadStream (js ''in.csv''),
         WriteFileSync (js ''out/in_part001.csv'') (js ''h'' @ [LF] @ js ''x'' @ [LF] @ js ''y'' @ [LF]),
         WriteFileSync (js ''out/in_part002.csv'') (js ''h'' @ [LF] @ js ''zzzzzzzzz'' @ [LF]),
         WriteFileSync (js ''out/in_part003.csv'') (js ''h'' @ [LF] @ js ''w'' @ [LF])],
      flushed =
        [\<lparr>rows = [js ''x'', js ''y''], total = 2\<rparr>,
         \<lparr>rows = [js ''zzzzzzzzz''], total = 3\<rparr>,
         \<lparr>rows = [js ''w''], total = 1\<rparr>]\<rparr>"


text \<open>
  A tokenizer whose cached encoder throws on every text, and text options that ask for
  exact counting in line mode.
\<close>

definition failingEncoder :: tokenizer where
  "failingEncoder = \<lparr>imported = None, cachedEncode = Some (\<lambda>text. Inl TokenizationFailure)\<rparr>"

definition exactText :: "int \<Rightarrow> SplitTextOptions" where
  "exactText b = \<lparr>model = None, approximate = None, maxTokens = b, mode = Some Line\<rparr>"


text \<open>
  A paragraph that counts 14 tokens approximately: 43 letters \<open>a\<close>, a full stop, a space and
  7 letters \<open>b\<close>.
\<close>

definition dottedUnit :: jstring where
  "dottedUnit = replicate 43 letterA @ [cu CHR ''.'', SP] @ replicate 7 letterB"

text \<open>Its first 44 code units, up to the full stop.\<close>

definition dottedWindow :: jstring where
  "dottedWindow = replicate 43 letterA @ [cu CHR ''.'']"

section \<open>Properties of the string functions\<close>

declare whitespaceWords.simps [simp del]

lemma isWhiteSpace_SP [simp]: "isWhiteSpace SP"
  by (simp add: isWhiteSpace_def)

lemma trimEnd_Nil [simp]: "trimEnd [] = []"
  by (simp add: trimEnd_def)

lemma trimStart_Nil [simp]: "trimStart [] = []"
  by (simp add: trimStart_def)

lemma trimEnd_append:
  "trimEnd (xs @ ys) = (if \<forall>c\<in>set ys. isWhiteSpace c then trimEnd xs else xs @ trimEnd ys)"
  by (simp add: trimEnd_def dropWhile_append)

lemma trimEnd_snoc_keep: "\<not> isWhiteSpace c \<Longrightarrow> trimEnd (xs @ [c]) = xs @ [c]"
  by (simp add: trimEnd_def)

lemma trimEnd_empty_iff: "trimEnd xs = [] \<longleftrightarrow> (\<forall>c\<in>set xs. isWhiteSpace c)"
  by (simp add: trimEnd_def dropWhile_eq_Nil_conv)

lemma trimEnd_all_ws: "\<forall>c\<in>set xs. isWhiteSpace c \<Longrightarrow> trimEnd xs = []"
  by (simp add: trimEnd_empty_iff)

lemma trimStart_all_ws: "\<forall>c\<in>set xs. isWhiteSpace c \<Longrightarrow> trimStart xs = []"
  by (simp add: trimStart_def)

lemma trim_all_ws: "\<forall>c\<in>set xs. isWhiteSpace c \<Longrightarrow> trim xs = []"
  by (simp add: trim_def trimStart_all_ws)

lemma replace_nonws_run:
  "\<forall>c\<in>set w. \<not> isWhiteSpace c \<Longrightarrow> replaceWhitespaceRuns (w @ v) = w @ replaceWhitespaceRuns v"
  by (induction w) auto

lemma replace_head:
  "replaceWhitespaceRuns s = [] \<longleftrightarrow> s = []"
  by (cases s) auto

lemma replace_starts_nonws:
  "s = c # cs \<Longrightarrow> \<not> isWhiteSpace c \<Longrightarrow> \<exists>t. replaceWhitespaceRuns s = c # t"
  by auto

lemma replace_ws_prefix:
  "trimStart (replaceWhitespaceRuns s) = replaceWhitespaceRuns (dropWhile isWhiteSpace s)"
proof (cases s)
  case Nil
  then show ?thesis by simp
next
  case (Cons c cs)
  show ?thesis
  proof (cases "isWhiteSpace c")
    case True
    let ?r = "dropWhile isWhiteSpace cs"
    have "trimStart (replaceWhitespaceRuns ?r) = replaceWhitespaceRuns ?r"
    proof (cases ?r)
      case Nil
      show ?thesis by (simp only: Nil replaceWhitespaceRuns.simps trimStart_Nil)
    next
      case (Cons d ds)
      then have "\<not> isWhiteSpace d" by (metis hd_dropWhile list.sel(1) list.distinct(1))
      with Cons show ?thesis by (simp add: trimStart_def)
    qed
    with True Cons show ?thesis by (simp add: trimStart_def)
  next
    case False
    with Cons show ?thesis by (simp add: trimStart_def)
  qed
qed

lemma trim_replace_drop:
  "trim (replaceWhitespaceRuns s) = trimEnd (replaceWhitespaceRuns (dropWhile isWhiteSpace s))"
  by (simp add: trim_def replace_ws_prefix)

lemma words_nonempty: "[] \<notin> set (whitespaceWords s)"
proof (induction s rule: whitespaceWords.induct)
  case (1 s)
  let ?r = "dropWhile isWhiteSpace s"
  show ?case
  proof (cases "?r = []")
    case True
    then show ?thesis by (simp add: whitespaceWords.simps [of s])
  next
    case False
    then have "\<not> isWhiteSpace (hd ?r)" by (rule hd_dropWhile)
    with False have "takeWhile (\<lambda>c. \<not> isWhiteSpace c) ?r \<noteq> []"
      by (cases ?r) auto
    with "1.IH" [OF refl False] False show ?thesis
      by (simp add: whitespaceWords.simps [of s] Let_def)
  qed
qed

lemma join_empty_iff: "[] \<notin> set xs \<Longrightarrow> join sep xs = [] \<longleftrightarrow> xs = []"
  by (induction sep xs rule: join.induct) auto

lemma join_Cons: "join sep (x # xs) = (if xs = [] then x else x @ sep @ join sep xs)"
  by (cases xs) auto

lemma trim_replace_words:
  "trim (replaceWhitespaceRuns s) = join [SP] (whitespaceWords s)"
proof (induction s rule: whitespaceWords.induct)
  case (1 s)
  let ?nws = "\<lambda>c. \<not> isWhiteSpace c"
  let ?r = "dropWhile isWhiteSpace s"
  let ?w = "takeWhile ?nws ?r"
  let ?v = "dropWhile ?nws ?r"
  show ?case
  proof (cases "?r = []")
    case True
    have "trim (replaceWhitespaceRuns s) = []"
      by (simp only: trim_replace_drop True replaceWhitespaceRuns.simps trimEnd_Nil)
    moreover have "whitespaceWords s = []"
      using True by (simp add: whitespaceWords.simps [of s] Let_def del: dropWhile_eq_Nil_conv)
    ultimately show ?thesis by simp
  next
    case False
    have IH: "trim (replaceWhitespaceRuns ?v) = join [SP] (whitespaceWords ?v)"
      by (rule "1.IH" [OF refl False])
    have W: "whitespaceWords s = ?w # whitespaceWords ?v"
      using False by (simp add: whitespaceWords.simps [of s] Let_def)
    have "\<not> isWhiteSpace (hd ?r)" using False by (rule hd_dropWhile)
    with False have w_ne: "?w \<noteq> []" by (cases ?r) auto
    have w_nws: "\<forall>c\<in>set ?w. \<not> isWhiteSpace c" by (auto dest: set_takeWhileD)
    from w_ne w_nws have w_last: "\<not> isWhiteSpace (last ?w)" by (meson last_in_set)
    have w_trim: "trimEnd ?w = ?w"
      using w_ne w_last trimEnd_snoc_keep [of "last ?w" "butlast ?w"] by simp
    have "replaceWhitespaceRuns ?r = ?w @ replaceWhitespaceRuns ?v"
      using replace_nonws_run [OF w_nws, of ?v] by simp
    then have lhs: "trim (replaceWhitespaceRuns s) = trimEnd (?w @ replaceWhitespaceRuns ?v)"
      by (simp add: trim_replace_drop)
    show ?thesis
    proof (cases ?v)
      case Nil
      have "whitespaceWords ?v = []"
        by (simp only: Nil) (simp add: whitespaceWords.simps [of "[]"])
      moreover have "trim (replaceWhitespaceRuns s) = ?w"
        by (simp only: lhs Nil replaceWhitespaceRuns.simps append_Nil2 w_trim)
      ultimately show ?thesis using W by simp
    next
      case (Cons d ds)
      let ?v' = "dropWhile isWhiteSpace ds"
      from Cons have d: "isWhiteSpace d" using hd_dropWhile [of ?nws ?r] by auto
      have Rv: "replaceWhitespaceRuns ?v = SP # replaceWhitespaceRuns ?v'"
        by (simp only: Cons) (simp add: d)
      have "dropWhile isWhiteSpace ?v = ?v'"
        by (simp only: Cons) (simp add: d)
      then have IH': "trimEnd (replaceWhitespaceRuns ?v') = join [SP] (whitespaceWords ?v)"
        using IH by (simp add: trim_replace_drop)
      have split: "trimEnd (?w @ replaceWhitespaceRuns ?v) =
                   trimEnd ((?w @ [SP]) @ replaceWhitespaceRuns ?v')"
        by (simp only: Rv) simp
      show ?thesis
      proof (cases "\<forall>c\<in>set (replaceWhitespaceRuns ?v'). isWhiteSpace c")
        case True
        then have "trimEnd (replaceWhitespaceRuns ?v') = []" by (rule trimEnd_all_ws)
        with IH' have "whitespaceWords ?v = []"
          using join_empty_iff [OF words_nonempty, of "[SP]" ?v] by simp
        moreover have "trimEnd ((?w @ [SP]) @ replaceWhitespaceRuns ?v') = ?w"
          using True w_trim by (simp add: trimEnd_append del: append_assoc)
        ultimately show ?thesis using W lhs split by simp
      next
        case False
        then have "trimEnd (replaceWhitespaceRuns ?v') \<noteq> []" by (simp add: trimEnd_empty_iff)
        with IH' have ne: "whitespaceWords ?v \<noteq> []" by auto
        have "trimEnd ((?w @ [SP]) @ replaceWhitespaceRuns ?v') =
              (?w @ [SP]) @ trimEnd (replaceWhitespaceRuns ?v')"
          using False by (simp only: trimEnd_append if_False)
        with W lhs split IH' ne show ?thesis by (simp add: join_Cons)
      qed
    qed
  qed
qed


section \<open>The approximate count\<close>

lemma mathCeilDiv_4: "mathCeilDiv a 4 = nat \<lceil>real a / 4\<rceil>"
proof -
  have "\<lceil>real a / 4\<rceil> = - ((- int a) div 4)"
    using ceiling_divide_eq_div [of "int a" 4, where ?'a = real] by simp
  also have "\<dots> = (int a + 3) div 4" by linarith
  also have "\<dots> = int ((a + 4 - 1) div 4)" by (simp add: zdiv_int)
  finally show ?thesis by (simp add: mathCeilDiv_def)
qed

lemma mathCeilDiv_6: "mathCeilDiv a 6 = nat \<lceil>real a / 6\<rceil>"
proof -
  have "\<lceil>real a / 6\<rceil> = - ((- int a) div 6)"
    using ceiling_divide_eq_div [of "int a" 6, where ?'a = real] by simp
  also have "\<dots> = (int a + 5) div 6" by linarith
  also have "\<dots> = int ((a + 6 - 1) div 6)" by (simp add: zdiv_int)
  finally show ?thesis by (simp add: mathCeilDiv_def)
qed

lemma isPunctuation_spec: "isPunctuation c \<longleftrightarrow> c \<in> specPunctuation"
  by (simp add: isPunctuation_def specPunctuation_def punctuationClass_def js_def cu_def)

text \<open>
  C3. For every input string the approximate counting function computes the formula of the
  specification: normalise by collapsing white-space runs to one space and trimming; 0 if
  the result is empty; otherwise \<open>max(1, ceil(chars / 4) + ceil(punctuation / 6))\<close> with the
  punctuation set \<open>. , ; : ! ? ( ) [ ] { } " '\<close>.
\<close>

theorem approximateTokenCount_formula:
  "approximateTokenCount text = specApproximateCount text"
proof -
  have "(\<lambda>c. c \<in> specPunctuation) = isPunctuation"
    by (rule ext) (simp add: isPunctuation_spec)
  then show ?thesis
    by (simp add: approximateTokenCount_def specApproximateCount_def specNormalize_def
          trim_replace_words mathCeilDiv_4 mathCeilDiv_6 Let_def)
qed

theorem approximateTokenCount_formula_witness:
  "approximateTokenCount (js ''  hello,   world!  '') = 5 \<and>
   specApproximateCount (js ''  hello,   world!  '') = 5"
proof -
  have "approximateTokenCount (js ''  hello,   world!  '') = 5"
    by code_simp
  then show ?thesis
    using approximateTokenCount_formula [of "js ''  hello,   world!  ''"] by simp
qed


section \<open>The encoder cache\<close>

lemma initTiktoken_idem: "initTiktoken (initTiktoken tk m) m = initTiktoken tk m"
  by (cases "cachedEncode tk"; cases "imported tk")
     (auto simp: initTiktoken_def Let_def split: option.splits)

lemma initTiktoken_imported: "imported (initTiktoken tk m) = imported tk"
  by (auto simp: initTiktoken_def Let_def split: option.splits)

text \<open>
  A call of \<open>countTokens\<close> leaves the tokenizer in a state from which every later call of
  the operation counts as it would have counted before.
\<close>

lemma countTokens_cache_stable:
  "counter (snd (countTokens tk text opts)) opts = counter tk opts"
proof (rule ext)
  fix t
  show "counter (snd (countTokens tk text opts)) opts t = counter tk opts t"
  proof (cases "approximate opts = Some True")
    case True
    then show ?thesis by (simp add: counter_def countTokens_def)
  next
    case False
    have "snd (countTokens tk text opts) = initTiktoken tk (model opts)"
      using False by (simp add: countTokens_def Let_def split: option.splits sum.splits)
    with False show ?thesis
      by (simp add: counter_def countTokens_def initTiktoken_idem)
  qed
qed


section \<open>The segmenters\<close>

lemma replaceCRLF_subset: "set (replaceCRLF s) \<subseteq> set s"
  by (induction s rule: replaceCRLF.induct) auto

lemma regexSplitLoop_pieces:
  "p \<in> set (regexSplitLoop m prev piece rest) \<Longrightarrow> set p \<subseteq> set piece \<union> set rest"
proof (induction m prev piece rest arbitrary: p rule: regexSplitLoop.induct)
  case (1 m prev piece)
  then show ?case by simp
next
  case (2 m prev piece c cs)
  show ?case
  proof (cases "m prev (c # cs)")
    case None
    with "2.prems" have "p \<in> set (regexSplitLoop m (Some c) (piece @ [c]) cs)" by simp
    from "2.IH"(1) [OF None this] show ?thesis by auto
  next
    case (Some n)
    show ?thesis
    proof (cases "n = 0 \<and> piece = []")
      case True
      with "2.prems" Some have "p \<in> set (regexSplitLoop m (Some c) (piece @ [c]) cs)" by simp
      from "2.IH"(2) [OF Some True this] show ?thesis by auto
    next
      case False
      let ?consumed = "take n (c # cs)"
      let ?prev = "if ?consumed = [] then prev else Some (last ?consumed)"
      from "2.prems" Some False
      have "p = piece \<or> p \<in> set (regexSplitLoop m ?prev [] (drop n (c # cs)))"
        by (auto simp: Let_def)
      then show ?thesis
      proof
        assume "p = piece"
        then show ?thesis by auto
      next
        assume "p \<in> set (regexSplitLoop m ?prev [] (drop n (c # cs)))"
        from "2.IH"(3) [OF Some False refl this]
        have "set p \<subseteq> set (drop n (c # cs))" by simp
        also have "\<dots> \<subseteq> set (c # cs)" by (rule set_drop_subset)
        finally show ?thesis by auto
      qed
    qed
  qed
qed

lemma regexSplit_pieces: "p \<in> set (regexSplit m s) \<Longrightarrow> set p \<subseteq> set s"
  using regexSplitLoop_pieces [of p m None "[]" s]
  by (auto simp: regexSplit_def split: if_splits option.splits)

lemma splitNewlineLoop_pieces:
  "p \<in> set (splitNewlineLoop piece rest) \<Longrightarrow> set p \<subseteq> set piece \<union> set rest"
  by (induction piece rest arbitrary: p rule: splitNewlineLoop.induct)
     (fastforce split: if_splits)+

lemma splitNewline_pieces: "p \<in> set (splitNewline s) \<Longrightarrow> set p \<subseteq> set s"
  using splitNewlineLoop_pieces [of p "[]" s] by (auto simp: splitNewline_def)

lemma sentenceParts_blank:
  assumes "\<forall>c\<in>set text. isWhiteSpace c"
  shows "sentenceParts text = []"
proof -
  have "trim p = []" if "p \<in> set (regexSplit matchSentenceBoundary (replaceCRLF text))" for p
  proof (rule trim_all_ws)
    from regexSplit_pieces [OF that] replaceCRLF_subset [of "text"] assms
    show "\<forall>c\<in>set p. isWhiteSpace c" by blast
  qed
  then show ?thesis by (auto simp: sentenceParts_def filter_empty_conv)
qed

lemma paragraphParts_blank:
  assumes "\<forall>c\<in>set text. isWhiteSpace c"
  shows "paragraphParts text = []"
proof -
  have "trim p = []" if "p \<in> set (regexSplit matchBlankLines (replaceCRLF text))" for p
  proof (rule trim_all_ws)
    from regexSplit_pieces [OF that] replaceCRLF_subset [of "text"] assms
    show "\<forall>c\<in>set p. isWhiteSpace c" by blast
  qed
  then show ?thesis by (auto simp: paragraphParts_def filter_empty_conv)
qed

lemma lineParts_blank:
  assumes "\<forall>c\<in>set text. isWhiteSpace c"
  shows "lineParts text = []"
proof -
  have "trimEnd p = []" if "p \<in> set (splitNewline (replaceCRLF text))" for p
  proof (rule trimEnd_all_ws)
    from splitNewline_pieces [OF that] replaceCRLF_subset [of "text"] assms
    show "\<forall>c\<in>set p. isWhiteSpace c" by blast
  qed
  then show ?thesis by (auto simp: lineParts_def filter_empty_conv)
qed

text \<open>
  C6. For each of the three segmenters: if splitting, trimming and dropping empties leaves
  no part, the result is the single unit \<open>trim text\<close>; for an empty or white-space-only
  text that unit is the empty string.
\<close>

theorem segmenter_fallback:
  "(sentenceParts text = [] \<longrightarrow> splitIntoSentences text = [trim text]) \<and>
   (paragraphParts text = [] \<longrightarrow> splitIntoParagraphs text = [trim text]) \<and>
   (lineParts text = [] \<longrightarrow> splitIntoLines text = [trim text]) \<and>
   ((\<forall>c\<in>set text. isWhiteSpace c) \<longrightarrow>
      splitIntoSentences text = [[]] \<and> splitIntoParagraphs text = [[]] \<and>
      splitIntoLines text = [[]])"
  by (simp add: splitIntoSentences_def splitIntoParagraphs_def splitIntoLines_def
        sentenceParts_blank paragraphParts_blank lineParts_blank trim_all_ws)

theorem segmenter_fallback_witness:
  "sentenceParts (js ''  '') = [] \<and> paragraphParts (js ''  '') = [] \<and> lineParts (js ''  '') = [] \<and>
   list_all isWhiteSpace (js ''  '') \<and>
   splitIntoSentences (js ''  '') = [trim (js ''  '')] \<and>
   splitIntoParagraphs (js ''  '') = [trim (js ''  '')] \<and>
   splitIntoLines (js ''  '') = [trim (js ''  '')] \<and>
   splitIntoSentences (js ''  '') = [[]] \<and> splitIntoParagraphs (js ''  '') = [[]] \<and>
   splitIntoLines (js ''  '') = [[]]"
proof -
  have ws: "\<forall>c\<in>set (js ''  ''). isWhiteSpace c"
    by (simp add: js_def cu_def isWhiteSpace_def)
  have "sentenceParts (js ''  '') = []" "paragraphParts (js ''  '') = []" "lineParts (js ''  '') = []"
    by code_simp+
  with ws show ?thesis
    using segmenter_fallback [of "js ''  ''"] by (auto simp: list_all_iff)
qed


section \<open>Counting plain text approximately\<close>

lemma counter_approximate:
  "approximate opts = Some True \<Longrightarrow> counter tk opts s = Inr (approximateTokenCount s)"
  by (simp add: counter_def countTokens_def)

lemma approximateCounter_eq: "approximateCounter s = Inr (approximateTokenCount s)"
  by (simp add: approximateCounter_def counter_approximate)

lemma trimStart_keep: "s \<noteq> [] \<Longrightarrow> \<not> isWhiteSpace (hd s) \<Longrightarrow> trimStart s = s"
  by (cases s) (simp_all add: trimStart_def)

lemma trimEnd_keep: "s \<noteq> [] \<Longrightarrow> \<not> isWhiteSpace (last s) \<Longrightarrow> trimEnd s = s"
  using trimEnd_snoc_keep [of "last s" "butlast s"] by simp

lemma approximateTokenCount_plain:
  assumes "\<forall>c\<in>set s. \<not> isWhiteSpace c \<and> \<not> isPunctuation c" and "s \<noteq> []"
  shows "approximateTokenCount s = max 1 (mathCeilDiv (length s) 4)"
proof -
  from assms(1) have "replaceWhitespaceRuns s = s"
    using replace_nonws_run [of s "[]"] by simp
  moreover from assms have "trim s = s"
    by (simp add: trim_def trimStart_keep trimEnd_keep)
  moreover from assms(1) have "filter isPunctuation s = []"
    by (simp add: filter_empty_conv)
  ultimately show ?thesis using assms(2)
    by (simp add: approximateTokenCount_def Let_def mathCeilDiv_def)
qed


section \<open>The hard split\<close>

declare shrinkSlice.simps [simp del] hardSplit.simps [simp del]

lemma floor85: "nat \<lfloor>(85 / 100) * real n\<rfloor> = n * 85 div 100"
proof -
  have "(85 / 100) * real n = real (n * 85) / real 100" by simp
  then have "\<lfloor>(85 / 100) * real n\<rfloor> = \<lfloor>real (n * 85) / real 100\<rfloor>" by simp
  also have "\<dots> = int (n * 85 div 100)" by (rule floor_divide_of_nat_eq)
  finally show ?thesis by simp
qed

lemma shrinkSlice_nonempty:
  "shrinkSlice cnt maxT s = Inr r \<Longrightarrow> s \<noteq> [] \<Longrightarrow> r \<noteq> []"
proof (induction cnt maxT s rule: shrinkSlice.induct)
  case (1 cnt maxT s)
  from "1.prems"(1) obtain n where n: "cnt s = Inr n"
    by (cases "cnt s") (simp_all add: shrinkSlice.simps [of cnt maxT s])
  show ?case
  proof (cases "int n > maxT \<and> length s > 50")
    case True
    then have "take (length s * 85 div 100) s \<noteq> []" by auto
    with "1.IH" [OF n True] "1.prems" n True show ?thesis
      by (simp add: shrinkSlice.simps [of cnt maxT s])
  next
    case False
    with "1.prems" n show ?thesis by (auto simp: shrinkSlice.simps [of cnt maxT s])
  qed
qed

lemma shrinkSlice_prefix:
  "shrinkSlice cnt maxT s = Inr r \<Longrightarrow> r = take (length r) s"
proof (induction cnt maxT s rule: shrinkSlice.induct)
  case (1 cnt maxT s)
  from "1.prems"(1) obtain n where n: "cnt s = Inr n"
    by (cases "cnt s") (simp_all add: shrinkSlice.simps [of cnt maxT s])
  show ?case
  proof (cases "int n > maxT \<and> length s > 50")
    case True
    let ?t = "take (length s * 85 div 100) s"
    from "1.prems" n True have "shrinkSlice cnt maxT ?t = Inr r"
      by (simp add: shrinkSlice.simps [of cnt maxT s])
    from "1.IH" [OF n True this] have eq: "r = take (length r) ?t" .
    then have "length r = min (length ?t) (length r)" by (metis length_take)
    then have "length r \<le> length s * 85 div 100" by simp
    then have "take (length r) ?t = take (length r) s" by (simp add: min_def)
    with eq show ?thesis by simp
  next
    case False
    with "1.prems" n show ?thesis by (auto simp: shrinkSlice.simps [of cnt maxT s])
  qed
qed


lemma hardSplit_Nil: "hardSplit cnt maxT [] = Inr []"
  by (simp add: hardSplit.simps [of cnt maxT "[]"])

lemma specShrink_unique:
  "specShrink cnt budget w a \<Longrightarrow> specShrink cnt budget w b \<Longrightarrow> a = b"
proof (induction arbitrary: b rule: specShrink.induct)
  case (accept cnt w n budget)
  from accept.prems accept.hyps show ?case
    by (cases rule: specShrink.cases) auto
next
  case (shrink cnt w n budget w')
  from shrink.prems shrink.hyps(1-3) shrink.IH show ?case
    by (cases rule: specShrink.cases) auto
qed

lemma specHardSplit_unique:
  "specHardSplit cnt budget r a \<Longrightarrow> specHardSplit cnt budget r b \<Longrightarrow> a = b"
proof (induction arbitrary: b rule: specHardSplit.induct)
  case (finished cnt budget)
  then show ?case by (cases rule: specHardSplit.cases) auto
next
  case (fragment remaining cnt budget w n rest)
  from fragment.prems show ?case
  proof (cases rule: specHardSplit.cases)
    case finished
    with fragment.hyps show ?thesis by simp
  next
    case (fragment w2 n2 rest2)
    from fragment(3) \<open>specShrink cnt budget (take (nat (max 50 (budget * 4))) remaining) w\<close>
    have "w2 = w" by (rule specShrink_unique)
    with fragment \<open>cnt w = Inr n\<close> fragment.IH show ?thesis by auto
  qed
qed


section \<open>The chunk packer: budget and constituents\<close>

lemma hardSplit_Cons:
  assumes "hardSplit cnt maxT r = Inr frags" and "r \<noteq> []"
  obtains w n rest where
    "shrinkSlice cnt maxT (take (nat (max 50 (maxT * 4))) r) = Inr w"
    "cnt w = Inr n"
    "hardSplit cnt maxT (trimStart (drop (length w) r)) = Inr rest"
    "frags = (w, n) # rest"
  using assms
  by (auto simp: hardSplit.simps [of cnt maxT r] Let_def split: sum.splits)

lemma sublist_trimStart_drop:
  assumes "sublist w (trimStart (drop k r))"
  shows "sublist w r"
proof -
  from assms obtain ps ss where 1: "trimStart (drop k r) = ps @ w @ ss"
    unfolding sublist_def by blast
  have "suffix (trimStart (drop k r)) (drop k r)"
    unfolding trimStart_def by (rule suffix_dropWhile)
  then obtain ys where 2: "drop k r = ys @ trimStart (drop k r)"
    unfolding suffix_def by blast
  have "r = take k r @ drop k r" by simp
  with 1 2 have "r = (take k r @ ys @ ps) @ w @ ss" by simp
  then show ?thesis unfolding sublist_def by blast
qed










section \<open>The text chunker as a whole\<close>




lemma segment_blank:
  "\<forall>c\<in>set text. isWhiteSpace c \<Longrightarrow> segment m text = [[]]"
  by (simp add: segment_def splitIntoSentences_def splitIntoParagraphs_def splitIntoLines_def
        sentenceParts_blank paragraphParts_blank lineParts_blank trim_all_ws)

lemma approximate_empty:
  "approximate opts = Some True \<Longrightarrow> operationCounter tk opts [] = Inr 0"
  by (simp add: operationCounter_def counter_approximate approximateTokenCount_def trim_def)

text \<open>
  C9. For an empty or white-space-only text and a budget above 0 the text chunker succeeds
  with exactly one chunk, the empty string, recorded with 0 tokens. The count of the empty
  string is 0 in approximate mode; an encoder is assumed to give it no token.
\<close>

theorem blank_text_single_empty_chunk:
  assumes "0 < maxTokens opts" and "\<forall>c\<in>set text. isWhiteSpace c"
    and "approximate opts = Some True \<or> operationCounter tk opts [] = Inr 0"
  shows "splitTextIntoTokenChunks tk text opts = Inr \<lparr>chunks = [[]], tokenCounts = [0]\<rparr>"
proof -
  let ?m = "effectiveMode opts"
  from assms(3) have zero: "operationCounter tk opts [] = Inr 0"
    by (auto simp: approximate_empty)
  have "packUnits (operationCounter tk opts) (maxTokens opts) (separator ?m) (segment ?m text) [] [] 0
          = Inr ([], [[]], 0)"
    using assms(1,2) zero by (simp add: segment_blank)
  with assms(1) have "packText tk text opts = Inr [joinedChunk (separator ?m) [[]] 0]"
    by (simp add: packText_def operationCounter_def effectiveMode_def Let_def)
  then show ?thesis
    by (simp add: splitTextIntoTokenChunks_def joinedChunk_def)
qed

theorem blank_text_single_empty_chunk_witness:
  "0 < maxTokens (approximateText 8) \<and> list_all isWhiteSpace (js ''  '') \<and>
   operationCounter noEncoder (approximateText 8) [] = Inr 0 \<and>
   splitTextIntoTokenChunks noEncoder (js ''  '') (approximateText 8) =
     Inr \<lparr>chunks = [[]], tokenCounts = [0]\<rparr>"
proof -
  have 1: "0 < maxTokens (approximateText 8)" by (simp add: approximateText_def)
  have 2: "\<forall>c\<in>set (js ''  ''). isWhiteSpace c" by (simp add: js_def cu_def isWhiteSpace_def)
  have 3: "operationCounter noEncoder (approximateText 8) [] = Inr 0"
    by (simp add: approximate_empty approximateText_def)
  from blank_text_single_empty_chunk [OF 1 2 disjI2 [OF 3]] 1 2 3 show ?thesis
    by (simp add: list_all_iff)
qed


section \<open>The row packer\<close>

lemma writtenContents_append:
  "writtenContents (fx @ gx) = writtenContents fx @ writtenContents gx"
  by (induction fx rule: writtenContents.induct) simp_all

lemma flushPart_None: "header st = None \<Longrightarrow> flushPart env opts st = Inl (MissingHeader, effects st)"
  by (simp add: flushPart_def)

lemma flushPart_empty:
  "header st = Some h \<Longrightarrow> h \<noteq> [] \<Longrightarrow> currentLines st = [] \<Longrightarrow> flushPart env opts st = Inr st"
  by (simp add: flushPart_def)

lemma flushPart_rows:
  assumes "header st = Some h" and "h \<noteq> []" and "currentLines st \<noteq> []"
  shows "\<exists>st'. flushPart env opts st = Inr st' \<and> header st' = Some h \<and>
           currentLines st' = [] \<and> currentTokens st' = 0 \<and>
           flushed st' = flushed st @ [\<lparr>rows = currentLines st, total = currentTokens st\<rparr>] \<and>
           writtenContents (effects st') =
             writtenContents (effects st) @ [join [LF] (h # currentLines st) @ [LF]]"
  using assms by (simp add: flushPart_def Let_def writtenContents_append)

text \<open>Flushing keeps the invariant and leaves no open part.\<close>

lemma flushPart_invariant:
  assumes "header st = Some h" and "h \<noteq> []"
    and "\<forall>p\<in>set (flushed st). int (total p) \<le> maxTokens opts \<or> oneOversizeRow cnt opts p"
    and "writtenContents (effects st) = map (partContent h) (flushed st)"
    and "currentLines st \<noteq> [] \<longrightarrow>
           int (total \<lparr>rows = currentLines st, total = currentTokens st\<rparr>) \<le> maxTokens opts \<or>
           oneOversizeRow cnt opts \<lparr>rows = currentLines st, total = currentTokens st\<rparr>"
    and "currentLines st = [] \<longrightarrow> currentTokens st = 0"
    and "0 \<le> maxTokens opts"
  shows "\<exists>st'. flushPart env opts st = Inr st' \<and> csvInvariant cnt opts h st' \<and>
           currentLines st' = [] \<and>
           concat (map rows (flushed st')) = concat (map rows (flushed st)) @ currentLines st"
proof (cases "currentLines st = []")
  case True
  with assms show ?thesis
    by (auto simp: flushPart_empty csvInvariant_def)
next
  case False
  from flushPart_rows [OF assms(1,2) False, of env opts] obtain st' where
    st': "flushPart env opts st = Inr st'" "header st' = Some h" "currentLines st' = []"
      "currentTokens st' = 0"
      "flushed st' = flushed st @ [\<lparr>rows = currentLines st, total = currentTokens st\<rparr>]"
      "writtenContents (effects st') =
         writtenContents (effects st) @ [join [LF] (h # currentLines st) @ [LF]]"
    by blast
  from st' assms False have "csvInvariant cnt opts h st'"
    by (auto simp: csvInvariant_def partContent_def)
  with st' show ?thesis by auto
qed

lemma csvInvariant_flush:
  assumes "csvInvariant cnt opts h st"
  shows "\<exists>st'. flushPart env opts st = Inr st' \<and> csvInvariant cnt opts h st' \<and>
           currentLines st' = [] \<and>
           concat (map rows (flushed st')) = concat (map rows (flushed st)) @ currentLines st"
proof -
  from assms have "0 \<le> maxTokens opts"
    unfolding csvInvariant_def by linarith
  with assms show ?thesis
    by (intro flushPart_invariant) (auto simp: csvInvariant_def)
qed


lemma nonBlankLines_Cons:
  "nonBlankLines (line # lines) =
     (if length (trim line) = 0 then nonBlankLines lines else line # nonBlankLines lines)"
  by (simp add: nonBlankLines_def)

lemma processLines_invariant:
  assumes "processLines cnt env opts lines st = Inr st'" and "csvInvariant cnt opts h st"
  shows "csvInvariant cnt opts h st' \<and>
         concat (map rows (flushed st')) @ currentLines st' =
           concat (map rows (flushed st)) @ currentLines st @ nonBlankLines lines"
  using assms
proof (induction lines arbitrary: st)
  case Nil
  then show ?case by (simp add: nonBlankLines_def)
next
  case (Cons line lines)
  note inv = Cons.prems(2)
  from inv have hd: "header st = Some h" "h \<noteq> []" by (simp_all add: csvInvariant_def)
  show ?case
  proof (cases "length (trim line) = 0")
    case True
    with Cons.prems(1) have "processLines cnt env opts lines st = Inr st'" by simp
    from Cons.IH [OF this inv] True show ?thesis by (simp add: nonBlankLines_Cons)
  next
    case False
    from Cons.prems(1) False hd obtain n where n: "cnt (rowTextForTokens opts line) = Inr n"
      by (cases "cnt (rowTextForTokens opts line)") simp_all
    have "\<exists>st1. processLines cnt env opts lines st1 = Inr st' \<and> csvInvariant cnt opts h st1 \<and>
            concat (map rows (flushed st1)) @ currentLines st1 =
              concat (map rows (flushed st)) @ currentLines st @ [line]"
    proof (cases "int n > maxTokens opts")
      case True
      from csvInvariant_flush [OF inv, of env] obtain sa where
        sa: "flushPart env opts st = Inr sa" "csvInvariant cnt opts h sa" "currentLines sa = []"
          "concat (map rows (flushed sa)) = concat (map rows (flushed st)) @ currentLines st"
        by blast
      let ?sb = "sa\<lparr>currentLines := [line], currentTokens := n\<rparr>"
      from n True have over: "oneOversizeRow cnt opts \<lparr>rows = [line], total = n\<rparr>"
        by (simp add: oneOversizeRow_def)
      from sa(2) have "0 \<le> maxTokens opts" unfolding csvInvariant_def by linarith
      with sa(2) over have "\<exists>sc. flushPart env opts ?sb = Inr sc \<and> csvInvariant cnt opts h sc \<and>
           currentLines sc = [] \<and>
           concat (map rows (flushed sc)) = concat (map rows (flushed ?sb)) @ currentLines ?sb"
        by (intro flushPart_invariant) (auto simp: csvInvariant_def)
      then obtain sc where
        sc: "flushPart env opts ?sb = Inr sc" "csvInvariant cnt opts h sc" "currentLines sc = []"
          "concat (map rows (flushed sc)) = concat (map rows (flushed ?sb)) @ currentLines ?sb"
        by blast
      from Cons.prems(1) False hd n True sa(1) sc(1)
      have "processLines cnt env opts lines sc = Inr st'" by simp
      with sc sa show ?thesis by auto
    next
      case fits: False
      show ?thesis
      proof (cases "int (currentTokens st + n) > maxTokens opts")
        case True
        from csvInvariant_flush [OF inv, of env] obtain sa where
          sa: "flushPart env opts st = Inr sa" "csvInvariant cnt opts h sa" "currentLines sa = []"
            "concat (map rows (flushed sa)) = concat (map rows (flushed st)) @ currentLines st"
          by blast
        let ?sb = "sa\<lparr>currentLines := currentLines sa @ [line],
                       currentTokens := currentTokens sa + n\<rparr>"
        from Cons.prems(1) False hd n fits True sa(1)
        have "processLines cnt env opts lines ?sb = Inr st'" by simp
        moreover from sa(2,3) fits have "csvInvariant cnt opts h ?sb"
          by (auto simp: csvInvariant_def)
        ultimately show ?thesis using sa by auto
      next
        case room: False
        let ?sb = "st\<lparr>currentLines := currentLines st @ [line],
                       currentTokens := currentTokens st + n\<rparr>"
        from Cons.prems(1) False hd n fits room
        have "processLines cnt env opts lines ?sb = Inr st'" by simp
        moreover from inv room have "csvInvariant cnt opts h ?sb"
          by (auto simp: csvInvariant_def)
        ultimately show ?thesis by auto
      qed
    qed
    then obtain st1 where
      st1: "processLines cnt env opts lines st1 = Inr st'" "csvInvariant cnt opts h st1"
        "concat (map rows (flushed st1)) @ currentLines st1 =
           concat (map rows (flushed st)) @ currentLines st @ [line]"
      by blast
    from Cons.IH [OF st1(1,2)] st1(3) False show ?thesis
      by (simp add: nonBlankLines_Cons)
  qed
qed

text \<open>Before the header: blank lines are skipped, the first other line becomes the header.\<close>

lemma processLines_no_header:
  assumes "header st = None"
  shows "(nonBlankLines lines = [] \<longrightarrow> processLines cnt env opts lines st = Inr st) \<and>
         (\<forall>h rest. nonBlankLines lines = h # rest \<longrightarrow>
            h \<noteq> [] \<and>
            (\<exists>lines'. nonBlankLines lines' = rest \<and>
               processLines cnt env opts lines st =
                 processLines cnt env opts lines' (st\<lparr>header := Some h\<rparr>)))"
  using assms
proof (induction lines)
  case Nil
  then show ?case by (simp add: nonBlankLines_def)
next
  case (Cons line lines)
  show ?case
  proof (cases "length (trim line) = 0")
    case True
    with Cons show ?thesis by (simp add: nonBlankLines_Cons)
  next
    case False
    then have "line \<noteq> []" by (auto simp: trim_def)
    with False Cons.prems show ?thesis
      by (auto simp: nonBlankLines_Cons)
  qed
qed


section \<open>Runs of the row packer\<close>

lemma splitCsvRun_started:
  assumes "files env (inputPath opts) = Some lines" and "0 < maxTokens opts"
    and "assumeNoMultilineFields opts \<noteq> Some False"
  shows "splitCsvRun env tk opts =
           (case processLines (operationCounter tk opts) env opts lines (initialState opts) of
              Inl x \<Rightarrow> Inl x
            | Inr st \<Rightarrow> flushPart env opts st)"
  using assms
  by (cases "assumeNoMultilineFields opts")
     (auto simp: splitCsvRun_def operationCounter_def initialState_def Let_def)

lemma splitCsvRun_Inr:
  assumes "splitCsvRun env tk opts = Inr st"
  obtains lines where "files env (inputPath opts) = Some lines" "0 < maxTokens opts"
    "assumeNoMultilineFields opts \<noteq> Some False"
  using assms
  by (auto simp: splitCsvRun_def Let_def split: option.splits if_splits)

lemma processLines_blank_stream:
  "nonBlankLines lines = [] \<Longrightarrow> processLines cnt env opts lines st = Inr st"
  by (induction lines) (auto simp: nonBlankLines_Cons split: if_splits)

lemma splitCsvRun_success:
  assumes "splitCsvRun env tk opts = Inr st" and "files env (inputPath opts) = Some lines"
  shows "\<exists>h. nonBlankLines lines = h # concat (map rows (flushed st)) \<and>
           csvInvariant (operationCounter tk opts) opts h st"
proof -
  let ?cnt = "operationCounter tk opts"
  let ?s0 = "initialState opts"
  from assms obtain pos: "0 < maxTokens opts" and ok: "assumeNoMultilineFields opts \<noteq> Some False"
    by (auto elim: splitCsvRun_Inr)
  note run = splitCsvRun_started [OF assms(2) pos ok, of tk]
  have h0: "header ?s0 = None" by (simp add: initialState_def)
  show ?thesis
  proof (cases "nonBlankLines lines")
    case Nil
    with processLines_no_header [OF h0, of lines ?cnt env opts]
    have "processLines ?cnt env opts lines ?s0 = Inr ?s0" by simp
    with run assms(1) h0 show ?thesis by (simp add: flushPart_None)
  next
    case (Cons h rest)
    with processLines_no_header [OF h0, of lines ?cnt env opts] obtain lines' where
      h: "h \<noteq> []" and rest: "nonBlankLines lines' = rest"
      and eq: "processLines ?cnt env opts lines ?s0 =
                 processLines ?cnt env opts lines' (?s0\<lparr>header := Some h\<rparr>)"
      by blast
    from run assms(1) eq obtain s1 where
      s1: "processLines ?cnt env opts lines' (?s0\<lparr>header := Some h\<rparr>) = Inr s1"
      and fl: "flushPart env opts s1 = Inr st"
      by (cases "processLines ?cnt env opts lines' (?s0\<lparr>header := Some h\<rparr>)") auto
    from h pos have "csvInvariant ?cnt opts h (?s0\<lparr>header := Some h\<rparr>)"
      by (simp add: csvInvariant_def initialState_def)
    from processLines_invariant [OF s1 this] rest
    have inv1: "csvInvariant ?cnt opts h s1"
      and rows1: "concat (map rows (flushed s1)) @ currentLines s1 = rest"
      by (simp_all add: initialState_def)
    from csvInvariant_flush [OF inv1, of env] fl
    have "csvInvariant ?cnt opts h st"
      and "concat (map rows (flushed st)) = concat (map rows (flushed s1)) @ currentLines s1"
      by auto
    with rows1 Cons show ?thesis by simp
  qed
qed

text \<open>
  C5. With an existing input, a positive budget and the line-based mode, a stream without
  any non-blank line makes the row packer fail with MissingHeader at the final flush, after
  the existence check, the creation of the output directory and the opening of the input,
  and before any write. In general a flush with no header captured fails with
  MissingHeader.
\<close>

theorem missing_header:
  "(files env (inputPath opts) = Some lines \<and> 0 < maxTokens opts \<and>
    assumeNoMultilineFields opts \<noteq> Some False \<and> nonBlankLines lines = [] \<longrightarrow>
      splitCsvByTokens env tk opts =
        (Inl MissingHeader, [ExistsSync (inputPath opts), MkdirSync (outDir opts),
                             CreateReadStream (inputPath opts)])) \<and>
   (header st = None \<longrightarrow> flushPart env opts st = Inl (MissingHeader, effects st))"
proof (intro conjI impI)
  assume a: "files env (inputPath opts) = Some lines \<and> 0 < maxTokens opts \<and>
    assumeNoMultilineFields opts \<noteq> Some False \<and> nonBlankLines lines = []"
  then have "splitCsvRun env tk opts =
               Inl (MissingHeader, effects (initialState opts))"
    by (simp add: splitCsvRun_started processLines_blank_stream flushPart_None initialState_def)
  then show "splitCsvByTokens env tk opts =
        (Inl MissingHeader, [ExistsSync (inputPath opts), MkdirSync (outDir opts),
                             CreateReadStream (inputPath opts)])"
    by (simp add: splitCsvByTokens_def initialState_def)
next
  assume "header st = None"
  then show "flushPart env opts st = Inl (MissingHeader, effects st)" by (rule flushPart_None)
qed

text \<open>
  C10. A stream whose only non-blank line is the header: the row packer succeeds with zero
  parts and no part path, and writes no file.
\<close>

theorem header_only_stream:
  assumes "files env (inputPath opts) = Some lines" and "0 < maxTokens opts"
    and "assumeNoMultilineFields opts \<noteq> Some False" and "nonBlankLines lines = [h]"
  shows "splitCsvByTokens env tk opts =
           (Inr \<lparr>parts = 0, partPathsOut = []\<rparr>,
            [ExistsSync (inputPath opts), MkdirSync (outDir opts),
             CreateReadStream (inputPath opts)])"
proof -
  let ?cnt = "operationCounter tk opts"
  let ?s0 = "initialState opts"
  have h0: "header ?s0 = None" by (simp add: initialState_def)
  from processLines_no_header [OF h0, of lines ?cnt env opts] assms(4) obtain lines' where
    h: "h \<noteq> []" and rest: "nonBlankLines lines' = []"
    and eq: "processLines ?cnt env opts lines ?s0 =
               processLines ?cnt env opts lines' (?s0\<lparr>header := Some h\<rparr>)"
    by blast
  from eq rest have "processLines ?cnt env opts lines ?s0 = Inr (?s0\<lparr>header := Some h\<rparr>)"
    by (simp add: processLines_blank_stream)
  moreover have "flushPart env opts (?s0\<lparr>header := Some h\<rparr>) = Inr (?s0\<lparr>header := Some h\<rparr>)"
    using h by (intro flushPart_empty) (simp_all add: initialState_def)
  ultimately have "splitCsvRun env tk opts = Inr (?s0\<lparr>header := Some h\<rparr>)"
    using assms(1-3) by (simp add: splitCsvRun_started)
  then show ?thesis by (simp add: splitCsvByTokens_def initialState_def)
qed

text \<open>
  C4, amended. With a budget of 0 or less the text chunker fails with ConfigurationError
  whatever the text and the tokenizer are. The row packer first asks whether the input
  exists: if not it fails with InputNotFound, otherwise with ConfigurationError, in both
  cases with no other effect.
\<close>

theorem nonpositive_budget:
  "(maxTokens topts \<le> 0 \<longrightarrow> splitTextIntoTokenChunks tk text topts = Inl ConfigurationError) \<and>
   (maxTokens copts \<le> 0 \<longrightarrow>
      splitCsvByTokens env tk' copts =
        (case files env (inputPath copts) of
           None \<Rightarrow> (Inl InputNotFound, [ExistsSync (inputPath copts)])
         | Some lines \<Rightarrow> (Inl ConfigurationError, [ExistsSync (inputPath copts)])))"
  by (simp add: splitTextIntoTokenChunks_def packText_def splitCsvByTokens_def splitCsvRun_def
        Let_def split: option.splits)


section \<open>Two runs of the text chunker\<close>

lemma plain_letters:
  "\<not> isWhiteSpace letterA" "\<not> isPunctuation letterA"
  "\<not> isWhiteSpace letterB" "\<not> isPunctuation letterB"
  "letterA \<noteq> LF" "letterA \<noteq> CR" "letterB \<noteq> LF" "letterB \<noteq> CR" "SP \<noteq> LF" "SP \<noteq> CR"
  "\<not> isPunctuation SP"
  by (simp_all add: letterA_def letterB_def isWhiteSpace_def isPunctuation_def punctuationClass_def
        cu_def js_def)

















section \<open>Order and budget\<close>









text \<open>
  C8. Every part written is the original header line, then the rows of the part, each on a
  line of its own; the rows of all parts in order are the non-blank lines after the header,
  as they came from the stream. Nothing here depends on the token mode.
\<close>

theorem parts_carry_header_and_rows:
  assumes "splitCsvRun env tk opts = Inr st" and "files env (inputPath opts) = Some lines"
  shows "\<exists>h. nonBlankLines lines = h # concat (map rows (flushed st)) \<and>
           writtenContents (effects st) = map (\<lambda>p. join [LF] (h # rows p) @ [LF]) (flushed st) \<and>
           (\<forall>content\<in>set (writtenContents (effects st)). prefix (h @ [LF]) content)"
proof -
  from splitCsvRun_success [OF assms] obtain h where
    h: "nonBlankLines lines = h # concat (map rows (flushed st))"
    and inv: "csvInvariant (operationCounter tk opts) opts h st"
    by blast
  from inv have w: "writtenContents (effects st) = map (partContent h) (flushed st)"
    by (simp add: csvInvariant_def)
  have "prefix (h @ [LF]) (partContent h p)" for p
    by (cases "rows p") (simp_all add: partContent_def)
  with w have "\<forall>content\<in>set (writtenContents (effects st)). prefix (h @ [LF]) content"
    by auto
  moreover from w have "writtenContents (effects st) =
      map (\<lambda>p. join [LF] (h # rows p) @ [LF]) (flushed st)"
    by (simp add: partContent_def)
  ultimately show ?thesis using h by blast
qed


section \<open>The properties on the example runs\<close>

lemma example_run:
  "splitCsvRun (csvEnv (Some exampleLines)) noEncoder (csvOptions 2) = Inr exampleFinal"
  by code_simp

lemma example_files:
  "files (csvEnv (Some exampleLines)) (inputPath (csvOptions 2)) = Some exampleLines"
  by (simp add: csvEnv_def csvOptions_def)






lemma csvOptions_maxTokens: "maxTokens (csvOptions b) = b"
  by (simp add: csvOptions_def)





theorem parts_carry_header_and_rows_witness:
  "splitCsvRun (csvEnv (Some exampleLines)) noEncoder (csvOptions 2) = Inr exampleFinal \<and>
   files (csvEnv (Some exampleLines)) (inputPath (csvOptions 2)) = Some exampleLines \<and>
   nonBlankLines exampleLines = js ''h'' # concat (map rows (flushed exampleFinal)) \<and>
   writtenContents (effects exampleFinal) =
     map (\<lambda>p. join [LF] (js ''h'' # rows p) @ [LF]) (flushed exampleFinal) \<and>
   list_all (prefix (js ''h'' @ [LF])) (writtenContents (effects exampleFinal))"
proof -
  from parts_carry_header_and_rows [OF example_run example_files] obtain h where
    h: "nonBlankLines exampleLines = h # concat (map rows (flushed exampleFinal))"
    and w: "writtenContents (effects exampleFinal) =
              map (\<lambda>p. join [LF] (h # rows p) @ [LF]) (flushed exampleFinal)"
    and p: "\<forall>content\<in>set (writtenContents (effects exampleFinal)). prefix (h @ [LF]) content"
    by blast
  have "nonBlankLines exampleLines = js ''h'' # tl (nonBlankLines exampleLines)"
    by code_simp
  with h have "h = js ''h''" by simp
  with h w p show ?thesis
    by (simp add: example_run example_files list_all_iff)
qed



lemma failingEncoder_fails:
  "operationCounter failingEncoder (exactText b) text = Inl TokenizationFailure"
  by (simp add: operationCounter_def counter_def countTokens_def initTiktoken_def
        failingEncoder_def exactText_def)

lemma csvEnv_files: "files (csvEnv content) (inputPath (csvOptions b)) = content"
  by (simp add: csvEnv_def csvOptions_def)

lemma csvOptions_simps:
  "inputPath (csvOptions b) = js ''in.csv''" "outDir (csvOptions b) = js ''out''"
  "assumeNoMultilineFields (csvOptions b) \<noteq> Some False"
  by (simp_all add: csvOptions_def)

text \<open>
  The row packer with a budget of 0: with no input file the error is InputNotFound, and with
  an input file the existence of the input has been queried before the ConfigurationError.
\<close>

theorem nonpositive_budget_counterexample:
  "maxTokens (csvOptions 0) \<le> 0 \<and>
   splitCsvByTokens (csvEnv None) noEncoder (csvOptions 0) =
     (Inl InputNotFound, [ExistsSync (js ''in.csv'')]) \<and>
   splitCsvByTokens (csvEnv (Some [])) noEncoder (csvOptions 0) =
     (Inl ConfigurationError, [ExistsSync (js ''in.csv'')])"
  by code_simp

theorem nonpositive_budget_witness:
  "maxTokens (exactText 0) \<le> 0 \<and>
   operationCounter failingEncoder (exactText 0) (js ''text'') = Inl TokenizationFailure \<and>
   splitTextIntoTokenChunks failingEncoder (js ''text'') (exactText 0) = Inl ConfigurationError \<and>
   maxTokens (csvOptions (- 3)) \<le> 0 \<and>
   splitCsvByTokens (csvEnv (Some exampleLines)) noEncoder (csvOptions (- 3)) =
     (Inl ConfigurationError, [ExistsSync (inputPath (csvOptions (- 3)))])"
proof -
  have 1: "maxTokens (exactText 0) \<le> 0" by (simp add: exactText_def)
  have 2: "maxTokens (csvOptions (- 3)) \<le> 0" by (simp add: csvOptions_maxTokens)
  from nonpositive_budget [of "exactText 0" failingEncoder "js ''text''" "csvOptions (- 3)"
      "csvEnv (Some exampleLines)" noEncoder] 1 2
  show ?thesis by (simp add: failingEncoder_fails csvEnv_files)
qed

theorem missing_header_witness:
  "files (csvEnv (Some [[], js '' ''])) (inputPath (csvOptions 3)) = Some [[], js '' ''] \<and>
   0 < maxTokens (csvOptions 3) \<and>
   assumeNoMultilineFields (csvOptions 3) \<noteq> Some False \<and>
   nonBlankLines [[], js '' ''] = [] \<and>
   splitCsvByTokens (csvEnv (Some [[], js '' ''])) noEncoder (csvOptions 3) =
     (Inl MissingHeader, [ExistsSync (inputPath (csvOptions 3)), MkdirSync (outDir (csvOptions 3)),
                          CreateReadStream (inputPath (csvOptions 3))]) \<and>
   header (initialState (csvOptions 3)) = None \<and>
   flushPart (csvEnv (Some [[], js '' ''])) (csvOptions 3) (initialState (csvOptions 3)) =
     Inl (MissingHeader, effects (initialState (csvOptions 3)))"
proof -
  have 1: "nonBlankLines [[], js '' ''] = []" by code_simp
  have 2: "header (initialState (csvOptions 3)) = None" by (simp add: initialState_def)
  have 3: "files (csvEnv (Some [[], js '' ''])) (inputPath (csvOptions 3)) = Some [[], js '' '']"
    by (rule csvEnv_files)
  have 4: "0 < maxTokens (csvOptions 3)" by (simp add: csvOptions_maxTokens)
  have 5: "assumeNoMultilineFields (csvOptions 3) \<noteq> Some False" by (rule csvOptions_simps)
  from missing_header [of "csvEnv (Some [[], js '' ''])" "csvOptions 3" "[[], js '' '']" noEncoder
      "initialState (csvOptions 3)"] 1 2 3 4 5
  show ?thesis by simp
qed

theorem header_only_stream_witness:
  "files (csvEnv (Some [[], js ''a,b'', js '' ''])) (inputPath (csvOptions 3)) =
     Some [[], js ''a,b'', js '' ''] \<and>
   0 < maxTokens (csvOptions 3) \<and>
   assumeNoMultilineFields (csvOptions 3) \<noteq> Some False \<and>
   nonBlankLines [[], js ''a,b'', js '' ''] = [js ''a,b''] \<and>
   splitCsvByTokens (csvEnv (Some [[], js ''a,b'', js '' ''])) noEncoder (csvOptions 3) =
     (Inr \<lparr>parts = 0, partPathsOut = []\<rparr>,
      [ExistsSync (inputPath (csvOptions 3)), MkdirSync (outDir (csvOptions 3)),
       CreateReadStream (inputPath (csvOptions 3))]) \<and>
   writtenContents [ExistsSync (inputPath (csvOptions 3)), MkdirSync (outDir (csvOptions 3)),
       CreateReadStream (inputPath (csvOptions 3))] = []"
proof -
  have 1: "files (csvEnv (Some [[], js ''a,b'', js '' ''])) (inputPath (csvOptions 3)) =
     Some [[], js ''a,b'', js '' '']" by (rule csvEnv_files)
  have 2: "0 < maxTokens (csvOptions 3)" by (simp add: csvOptions_maxTokens)
  have 3: "assumeNoMultilineFields (csvOptions 3) \<noteq> Some False" by (rule csvOptions_simps)
  have 4: "nonBlankLines [[], js ''a,b'', js '' ''] = [js ''a,b'']" by code_simp
  from header_only_stream [OF 1 2 3 4, of noEncoder] 1 2 3 4 show ?thesis by simp
qed



section \<open>The hard split, step by step\<close>

lemma shrinkSlice_Inr_spec:
  "shrinkSlice cnt maxT s = Inr w \<Longrightarrow> specShrink cnt maxT s w"
proof (induction cnt maxT s rule: shrinkSlice.induct)
  case (1 cnt maxT s)
  from "1.prems" obtain n where n: "cnt s = Inr n"
    by (cases "cnt s") (simp_all add: shrinkSlice.simps [of cnt maxT s])
  show ?case
  proof (cases "int n > maxT \<and> length s > 50")
    case True
    let ?t = "take (length s * 85 div 100) s"
    from "1.prems" n True have "shrinkSlice cnt maxT ?t = Inr w"
      by (simp add: shrinkSlice.simps [of cnt maxT s])
    from "1.IH" [OF n True this]
    have "specShrink cnt maxT (take (nat \<lfloor>(85 / 100) * real (length s)\<rfloor>) s) w"
      by (simp only: floor85)
    with n True show ?thesis by (auto intro: specShrink.shrink)
  next
    case False
    with "1.prems" n have "w = s" by (auto simp: shrinkSlice.simps [of cnt maxT s])
    with n False show ?thesis by (auto intro: specShrink.accept)
  qed
qed

lemma shrinkSlice_Inl:
  "shrinkSlice cnt maxT s = Inl e \<Longrightarrow> \<exists>t. prefix t s \<and> cnt t = Inl e"
proof (induction cnt maxT s rule: shrinkSlice.induct)
  case (1 cnt maxT s)
  show ?case
  proof (cases "cnt s")
    case (Inl e')
    with "1.prems" have "e' = e" by (simp add: shrinkSlice.simps [of cnt maxT s])
    with Inl show ?thesis by auto
  next
    case (Inr n)
    with "1.prems" have big: "int n > maxT \<and> length s > 50"
      and rec: "shrinkSlice cnt maxT (take (length s * 85 div 100) s) = Inl e"
      by (auto simp: shrinkSlice.simps [of cnt maxT s] split: if_splits)
    from "1.IH" [OF Inr big rec] obtain t where
      "prefix t (take (length s * 85 div 100) s)" "cnt t = Inl e" by blast
    moreover have "prefix (take (length s * 85 div 100) s) s" by (rule take_is_prefix)
    ultimately show ?thesis using prefix_order.trans by blast
  qed
qed

lemma shrinkSlice_take:
  assumes "shrinkSlice cnt maxT (take g r) = Inr w"
  shows "w = take (length w) r"
proof -
  from shrinkSlice_prefix [OF assms] have "w = take (length w) (take g r)" .
  then show ?thesis
    by (metis take_take min.absorb1 length_take min.cobounded2 min.commute)
qed

lemma hardSplit_Inr_spec:
  "hardSplit cnt maxT r = Inr frags \<Longrightarrow>
   specHardSplit cnt maxT r frags \<and> (r \<noteq> [] \<longrightarrow> frags \<noteq> []) \<and> length frags \<le> length r"
proof (induction cnt maxT r arbitrary: frags rule: hardSplit.induct)
  case (1 cnt maxT r)
  show ?case
  proof (cases "r = []")
    case True
    with "1.prems" show ?thesis by (auto simp: hardSplit_Nil intro: specHardSplit.finished)
  next
    case False
    from "1.prems"(1) False obtain w n rest where
      sh: "shrinkSlice cnt maxT (take (nat (max 50 (maxT * 4))) r) = Inr w"
      and c: "cnt w = Inr n"
      and hs: "hardSplit cnt maxT (trimStart (drop (length w) r)) = Inr rest"
      and fr: "frags = (w, n) # rest"
      by (rule hardSplit_Cons)
    from False have pos: "0 < length r" by simp
    from "1.IH" [OF pos refl sh c hs]
    have spec: "specHardSplit cnt maxT (trimStart (drop (length w) r)) rest"
      and len: "length rest \<le> length (trimStart (drop (length w) r))" by simp_all
    from False have "take (nat (max 50 (maxT * 4))) r \<noteq> []" by auto
    with shrinkSlice_nonempty [OF sh] have "w \<noteq> []" .
    then have lw: "0 < length w" by simp
    have "length (trimStart (drop (length w) r)) \<le> length r - length w"
      unfolding trimStart_def using length_dropWhile_le [of isWhiteSpace "drop (length w) r"] by simp
    with len lw pos have "length rest < length r" by linarith
    moreover from False shrinkSlice_Inr_spec [OF sh] c spec
    have "specHardSplit cnt maxT r ((w, n) # rest)" by (rule specHardSplit.fragment)
    ultimately show ?thesis using fr by simp
  qed
qed

lemma hardSplit_Inl:
  "hardSplit cnt maxT r = Inl e \<Longrightarrow> \<exists>s. sublist s r \<and> cnt s = Inl e"
proof (induction cnt maxT r rule: hardSplit.induct)
  case (1 cnt maxT r)
  let ?g = "nat (max 50 (maxT * 4))"
  from "1.prems" have ne: "r \<noteq> []" by (auto simp: hardSplit_Nil)
  then have pos: "0 < length r" by simp
  show ?case
  proof (cases "shrinkSlice cnt maxT (take ?g r)")
    case (Inl e')
    with "1.prems" ne have "e' = e" by (simp add: hardSplit.simps [of cnt maxT r])
    with Inl shrinkSlice_Inl obtain t where "prefix t (take ?g r)" "cnt t = Inl e" by blast
    moreover have "prefix (take ?g r) r" by (rule take_is_prefix)
    ultimately have "prefix t r" "cnt t = Inl e" using prefix_order.trans by blast+
    then show ?thesis by auto
  next
    case (Inr w)
    from shrinkSlice_take [OF Inr] have w: "sublist w r" by (metis sublist_take)
    show ?thesis
    proof (cases "cnt w")
      case (Inl e')
      with "1.prems" ne Inr have "e' = e" by (simp add: hardSplit.simps [of cnt maxT r])
      with Inl w show ?thesis by auto
    next
      case c: (Inr n)
      with "1.prems" ne Inr
      have "hardSplit cnt maxT (trimStart (drop (length w) r)) = Inl e"
        by (simp add: hardSplit.simps [of cnt maxT r] split: sum.splits)
      from "1.IH" [OF pos refl Inr c this] show ?thesis
        by (auto intro: sublist_trimStart_drop)
    qed
  qed
qed

text \<open>
  C7. The hard split of a non-empty unit always ends, whatever the counter is. Either it
  returns one or more fragments, at most as many as the unit has code units, and they are
  exactly the fragments that the steps of the specification determine: window of
  \<open>max(50, budget * 4)\<close> characters, shrunk to \<open>floor(85%)\<close> while it counts above the budget
  and is longer than 50, emitted with its recount, the remainder trimmed on the left. Or it
  ends with the exception that the counter raised on a piece of the unit. It returns
  fragments whenever the counter answers on the pieces of the unit.
\<close>

theorem hardSplit_steps:
  assumes "unit \<noteq> []"
  shows "(case hardSplit cnt budget unit of
            Inr frags \<Rightarrow>
              frags \<noteq> [] \<and> length frags \<le> length unit \<and> specHardSplit cnt budget unit frags \<and>
              (\<forall>frags'. specHardSplit cnt budget unit frags' \<longrightarrow> frags' = frags)
          | Inl e \<Rightarrow> \<exists>s. sublist s unit \<and> cnt s = Inl e) \<and>
         ((\<forall>s. sublist s unit \<longrightarrow> (\<exists>n. cnt s = Inr n)) \<longrightarrow>
            (\<exists>frags. hardSplit cnt budget unit = Inr frags))"
proof (cases "hardSplit cnt budget unit")
  case (Inl e)
  from hardSplit_Inl [OF Inl] obtain s where "sublist s unit" "cnt s = Inl e" by blast
  with Inl show ?thesis by auto
next
  case (Inr frags)
  from hardSplit_Inr_spec [OF Inr] assms
  have ne: "frags \<noteq> []" and len: "length frags \<le> length unit"
    and spec: "specHardSplit cnt budget unit frags"
    by simp_all
  have uniq: "\<forall>frags'. specHardSplit cnt budget unit frags' \<longrightarrow> frags' = frags"
  proof (intro allI impI)
    fix frags'
    assume "specHardSplit cnt budget unit frags'"
    then show "frags' = frags" using spec by (rule specHardSplit_unique)
  qed
  have body: "frags \<noteq> [] \<and> length frags \<le> length unit \<and> specHardSplit cnt budget unit frags \<and>
              (\<forall>frags'. specHardSplit cnt budget unit frags' \<longrightarrow> frags' = frags)"
    using ne len spec uniq by (intro conjI) assumption+
  show ?thesis
    apply (rule conjI)
     apply (simp only: Inr sum.case)
     apply (rule body)
    apply (rule impI)
    apply (rule exI [of _ frags])
    apply (rule Inr)
    done
qed

lemma fullStop_facts: "\<not> isWhiteSpace (cu CHR ''.'')" "isPunctuation (cu CHR ''.'')"
  by (simp_all add: isWhiteSpace_def isPunctuation_def punctuationClass_def cu_def js_def)

lemma approximateTokenCount_normal:
  assumes "replaceWhitespaceRuns s = s" and "trim s = s" and "s \<noteq> []"
    and "length s = n" and "length (filter isPunctuation s) = p"
  shows "approximateTokenCount s = max 1 ((n + 3) div 4 + (p + 5) div 6)"
  using assms by (simp add: approximateTokenCount_def Let_def mathCeilDiv_def add.commute)

lemma dottedUnit_split: "dottedUnit = dottedWindow @ SP # replicate 7 letterB"
  by (simp add: dottedUnit_def dottedWindow_def)

lemma dottedUnit_facts:
  "length dottedUnit = 52" "dottedUnit \<noteq> []" "take 52 dottedUnit = dottedUnit"
  "take 44 dottedUnit = dottedWindow"
  "trimStart (drop 44 dottedUnit) = replicate 7 letterB"
  by (simp_all add: dottedUnit_def dottedWindow_def trimStart_def plain_letters)

lemma dottedWindow_facts: "length dottedWindow = 44" "dottedWindow \<noteq> []"
  by (simp_all add: dottedWindow_def)

lemma count_dottedWindow: "approximateTokenCount dottedWindow = 12"
proof -
  have 1: "replaceWhitespaceRuns dottedWindow = dottedWindow"
    using replace_nonws_run [of dottedWindow "[]"]
    by (simp add: dottedWindow_def plain_letters fullStop_facts)
  have 2: "trim dottedWindow = dottedWindow"
    by (simp add: trim_def trimStart_keep trimEnd_keep dottedWindow_def plain_letters fullStop_facts)
  have 3: "length (filter isPunctuation dottedWindow) = 1"
    by (simp add: dottedWindow_def plain_letters fullStop_facts filter_replicate)
  from approximateTokenCount_normal [OF 1 2 dottedWindow_facts(2) dottedWindow_facts(1) 3]
  show ?thesis by simp
qed

lemma count_dottedUnit: "approximateTokenCount dottedUnit = 14"
proof -
  have "replaceWhitespaceRuns (replicate 7 letterB) = replicate 7 letterB"
    using replace_nonws_run [of "replicate 7 letterB" "[]"] by (simp add: plain_letters)
  then have "replaceWhitespaceRuns (SP # replicate 7 letterB) = SP # replicate 7 letterB"
    by (simp add: plain_letters)
  then have 1: "replaceWhitespaceRuns dottedUnit = dottedUnit"
    using replace_nonws_run [of "replicate 43 letterA @ [cu CHR ''.'']" "SP # replicate 7 letterB"]
    by (simp add: dottedUnit_def plain_letters fullStop_facts)
  have 2: "trim dottedUnit = dottedUnit"
    by (simp add: trim_def trimStart_keep trimEnd_keep dottedUnit_def plain_letters)
  have 3: "length (filter isPunctuation dottedUnit) = 1"
    by (simp add: dottedUnit_def plain_letters fullStop_facts filter_replicate)
  from approximateTokenCount_normal [OF 1 2 dottedUnit_facts(2) dottedUnit_facts(1) 3]
  show ?thesis by simp
qed

lemma count_letterBs: "approximateTokenCount (replicate 7 letterB) = 2"
  using approximateTokenCount_plain [of "replicate 7 letterB"]
  by (simp add: plain_letters mathCeilDiv_def)

lemma hardSplit_dottedUnit:
  "hardSplit approximateCounter 13 dottedUnit =
     Inr [(dottedWindow, 12), (replicate 7 letterB, 2)]"
proof -
  have "shrinkSlice approximateCounter 13 dottedWindow = Inr dottedWindow"
    by (subst shrinkSlice.simps) (simp add: approximateCounter_eq count_dottedWindow)
  then have s1: "shrinkSlice approximateCounter 13 dottedUnit = Inr dottedWindow"
    by (subst shrinkSlice.simps)
       (simp add: approximateCounter_eq count_dottedUnit dottedUnit_facts)
  have s2: "shrinkSlice approximateCounter 13 (replicate 7 letterB) = Inr (replicate 7 letterB)"
    by (subst shrinkSlice.simps) (simp add: approximateCounter_eq count_letterBs)
  have h2: "hardSplit approximateCounter 13 (replicate 7 letterB) = Inr [(replicate 7 letterB, 2)]"
    by (subst hardSplit.simps) (simp add: s2 approximateCounter_eq count_letterBs hardSplit_Nil)
  show ?thesis
    by (subst hardSplit.simps)
       (simp add: s1 h2 approximateCounter_eq count_dottedWindow dottedUnit_facts
          dottedWindow_facts)
qed

lemma hardSplit_failing:
  "hardSplit (operationCounter failingEncoder (exactText 13)) 13 dottedUnit = Inl TokenizationFailure"
  by (subst hardSplit.simps, subst shrinkSlice.simps)
     (simp add: failingEncoder_fails dottedUnit_facts)

text \<open>
  The paragraph of 52 code units with a budget of 13: the window is the whole paragraph and
  counts 14, is shrunk to 44 code units that count 12, and the space after it is trimmed
  off the remainder. With an encoder that throws, the hard split ends with its exception.
\<close>

theorem hardSplit_steps_witness:
  "dottedUnit \<noteq> [] \<and>
   approximateCounter dottedUnit = Inr 14 \<and>
   hardSplit approximateCounter 13 dottedUnit =
     Inr [(dottedWindow, 12), (replicate 7 letterB, 2)] \<and>
   length [(dottedWindow, 12 :: nat), (replicate 7 letterB, 2)] \<le> length dottedUnit \<and>
   specHardSplit approximateCounter 13 dottedUnit [(dottedWindow, 12), (replicate 7 letterB, 2)] \<and>
   hardSplit (operationCounter failingEncoder (exactText 13)) 13 dottedUnit =
     Inl TokenizationFailure \<and>
   (\<exists>s. sublist s dottedUnit \<and>
        operationCounter failingEncoder (exactText 13) s = Inl TokenizationFailure)"
proof -
  have ne: "dottedUnit \<noteq> []" by (rule dottedUnit_facts)
  from hardSplit_steps [OF ne, of approximateCounter 13]
  have a: "length [(dottedWindow, 12 :: nat), (replicate 7 letterB, 2)] \<le> length dottedUnit \<and>
           specHardSplit approximateCounter 13 dottedUnit
             [(dottedWindow, 12), (replicate 7 letterB, 2)]"
    by (simp only: hardSplit_dottedUnit sum.case)
  from hardSplit_steps [OF ne, of "operationCounter failingEncoder (exactText 13)" 13]
  have b: "\<exists>s. sublist s dottedUnit \<and>
             operationCounter failingEncoder (exactText 13) s = Inl TokenizationFailure"
    by (simp only: hardSplit_failing sum.case)
  have c: "approximateCounter dottedUnit = Inr 14"
    by (simp add: approximateCounter_eq count_dottedUnit)
  from ne a b c hardSplit_dottedUnit hardSplit_failing show ?thesis by blast
qed

end
